theory Spec2Isabelle
  imports Main "HOL-Library.Word" "HOL-Library.Signed_Division"
begin

section \<open>Data model\<close>

text \<open>
  Go's \<open>int64\<close> is a 64-bit word read as two's complement: the source compares
  timestamps with \<open><\<close>, \<open>>\<close> and \<open>>=\<close> on \<open>int64\<close>, which are the signed orders
  \<open><s\<close> and \<open>\<le>s\<close> here, and \<open>math.MaxInt64\<close> is \<open>2 ^ 63 - 1\<close>.
\<close>

type_synonym int64 = "64 word"

definition MaxInt64 :: int64 where
  "MaxInt64 = 9223372036854775807"

text \<open>
  \<open>types.LogStream\<close> of the backend SDK, as \<open>DescribeLogStreams\<close> returns it. The four
  fields that \<open>ListStreams\<close> tests against \<open>nil\<close> are optional; the stream name is
  dereferenced unchecked by the source (the backend always sets it) and is a plain string.
\<close>

record sdk_LogStream =
  LogStreamName :: string
  sdk_FirstEventTimestamp :: "int64 option"
  sdk_LastEventTimestamp :: "int64 option"
  sdk_LastIngestionTime :: "int64 option"
  sdk_UploadSequenceToken :: "string option"

text \<open>\<open>LogStream\<close> of \<open>stream.go\<close>: what \<open>ListStreams\<close> returns.\<close>

record LogStream =
  Name :: string
  LastEventTimestamp :: "int64 option"
  FirstEventTimestamp :: "int64 option"
  LastIngestionTime :: "int64 option"
  UploadSequenceToken :: "string option"

text \<open>
  The fields of \<open>cfg.Config\<close> that the tailing engine reads. The configuration package is
  not part of the two source files modelled here, so the record lists the fields as \<open>stream.go\<close> and
  the client use them: \<open>LogStreamNameFilter\<close> is the compiled regular expression, taken
  as its \<open>MatchString\<close> predicate; \<open>StartTime\<close> and \<open>EndTime\<close> are the values of
  \<open>Unix()\<close> (seconds), \<open>EndTime\<close> being a pointer that may be \<open>nil\<close>.
\<close>

record Config =
  LogStreamNamePrefix :: string
  LogStreamNameFilter :: "string \<Rightarrow> bool"
  FilterPattern :: string
  StartTime :: int64
  EndTime :: "int64 option"

text \<open>
  What a request to the backend can fail with: the two exceptions the source tells apart
  with \<open>errors.As\<close>, and any other error (with its message).
\<close>

datatype backend_error = ResourceNotFoundException | ThrottlingException | OtherError string

text \<open>Errors returned by the functions of the client (the wrapped messages).\<close>

datatype error =
    FailedToDescribeLogStreams string
  | InitialCheckFailed error
  | LogStreamsExceed100
  | UnknownErrorWhileFilterLogEvents backend_error
  | ContextErr

section \<open>Stream discovery: \<open>ListStreams\<close>\<close>

text \<open>
  The answer of one \<open>NextPage\<close> call of the \<open>DescribeLogStreams\<close> paginator: an error or a
  page of streams. The backend's listing is the sequence of answers it gives to successive
  calls; a page carries a next token, so that \<open>HasMorePages\<close> holds after it, exactly when
  the listing has a further answer. The paginator always issues its first request, so a
  listing is the first answer together with the list of the following ones.
\<close>

type_synonym describe_resp = "backend_error + sdk_LogStream list"

text \<open>The local variables of \<open>ListStreams\<close> that its loops update.\<close>

record ls_state =
  streams :: "LogStream list"
  hasUpdatedStream :: bool
  minLastIngestionTime :: int64

definition ls_init :: ls_state where
  "ls_init = \<lparr>streams = [], hasUpdatedStream = False, minLastIngestionTime = MaxInt64\<rparr>"

text \<open>A stream without log events: one of the four fields is \<open>nil\<close> (lines 55 to 59).\<close>

definition is_empty_stream :: "sdk_LogStream \<Rightarrow> bool" where
  "is_empty_stream s \<longleftrightarrow>
     sdk_FirstEventTimestamp s = None \<or> sdk_LastEventTimestamp s = None \<or>
     sdk_LastIngestionTime s = None \<or> sdk_UploadSequenceToken s = None"

text \<open>The body of the loop over \<open>output.LogStreams\<close> (lines 54 to 76), for one stream.\<close>

definition examine_stream :: "Config \<Rightarrow> int64 \<Rightarrow> ls_state \<Rightarrow> sdk_LogStream \<Rightarrow> ls_state" where
  "examine_stream cfg since st s =
     (if is_empty_stream s then st
      else case sdk_LastIngestionTime s of
        None \<Rightarrow> st
      | Some lit \<Rightarrow>
          let st1 = (if lit <s minLastIngestionTime st
                     then st\<lparr>minLastIngestionTime := lit\<rparr> else st)
          in if \<not> LogStreamNameFilter cfg (LogStreamName s) then st1
             else if lit <s since then st1
             else st1\<lparr>hasUpdatedStream := True,
                      streams := streams st1 @
                        [\<lparr>Name = LogStreamName s, LastEventTimestamp = Some lit,
                          FirstEventTimestamp = None, LastIngestionTime = None,
                          UploadSequenceToken = None\<rparr>]\<rparr>)"

definition examine_page :: "Config \<Rightarrow> int64 \<Rightarrow> ls_state \<Rightarrow> sdk_LogStream list \<Rightarrow> ls_state" where
  "examine_page cfg since st page = foldl (examine_stream cfg since) st page"

text \<open>
  The pagination loop (lines 40 to 88), entered with the answer \<open>r\<close> to the request just
  made and the answers \<open>rest\<close> the backend would give to further requests. The result is
  what \<open>ListStreams\<close> returns, an error or the stream list (Go's \<open>nil\<close> slice of the
  throttling branch is the empty list), paired with the answers that were never requested.
  The half-second sleep of the throttling branch has no effect on the result.
\<close>

fun paginate ::
  "Config \<Rightarrow> int64 \<Rightarrow> ls_state \<Rightarrow> describe_resp \<Rightarrow> describe_resp list \<Rightarrow>
     (error + LogStream list) \<times> describe_resp list" where
  "paginate cfg since st (Inl ResourceNotFoundException) rest = (Inr (streams st), rest)"
| "paginate cfg since st (Inl ThrottlingException) rest = (Inr [], rest)"
| "paginate cfg since st (Inl (OtherError m)) rest = (Inl (FailedToDescribeLogStreams m), rest)"
| "paginate cfg since st (Inr page) rest =
     (let st' = examine_page cfg since st page in
      if LogStreamNamePrefix cfg \<noteq> [] then (Inr (streams st'), rest)
      else if since \<le>s minLastIngestionTime st' then (Inr (streams st'), rest)
      else if \<not> hasUpdatedStream st' then (Inr (streams st'), rest)
      else case rest of
             [] \<Rightarrow> (Inr (streams st'), [])
           | r # rs \<Rightarrow> paginate cfg since st' r rs)"

definition ListStreams ::
  "Config \<Rightarrow> int64 \<Rightarrow> describe_resp \<Rightarrow> describe_resp list \<Rightarrow>
     (error + LogStream list) \<times> describe_resp list" where
  "ListStreams cfg since r rest = paginate cfg since ls_init r rest"

section \<open>The dedup cache\<close>

text \<open>
  The package \<open>cache\<close> of the repository (\<open>cache.Cache\<close> with \<open>Load\<close>, \<open>Store\<close> and
  \<open>Expire\<close>) is not part of the two source files modelled here. The three operations below follow the
  contract the specification gives for them; the cache maps a namespace (the log group
  name) to a map from event id to the timestamp last stored for it.
\<close>

type_synonym cache = "string \<Rightarrow> string \<rightharpoonup> int64"

text \<open>Modelled from the spec: \<open>cache.Cache.Load\<close>, missing from the sources.
  \<open>Load(namespace, eventId)\<close> is true iff the id was stored and has not expired.\<close>

definition Cache_Load :: "cache \<Rightarrow> string \<Rightarrow> string \<Rightarrow> bool" where
  "Cache_Load c ns eid \<longleftrightarrow> c ns eid \<noteq> None"

text \<open>Modelled from the spec: \<open>cache.Cache.Store\<close>, missing from the sources.
  \<open>Store(namespace, eventId, timestamp)\<close> records the id as seen at the timestamp; it
  never fails and overwrites the timestamp of an id already present.\<close>

definition Cache_Store :: "cache \<Rightarrow> string \<Rightarrow> string \<Rightarrow> int64 \<Rightarrow> cache" where
  "Cache_Store c ns eid ts = c(ns := (c ns)(eid \<mapsto> ts))"

text \<open>Modelled from the spec: \<open>cache.Cache.Expire\<close>, missing from the sources.
  \<open>Expire(namespace, watermark)\<close> removes every entry of the namespace whose stored
  timestamp is strictly less than the watermark.\<close>

definition Cache_Expire :: "cache \<Rightarrow> string \<Rightarrow> int64 \<Rightarrow> cache" where
  "Cache_Expire c ns wm =
     c(ns := (\<lambda>eid. case c ns eid of
                       None \<Rightarrow> None
                     | Some ts \<Rightarrow> if ts <s wm then None else Some ts))"

section \<open>The client: announcements, the fetch loop and \<open>tail\<close>\<close>

text \<open>
  \<open>types.FilteredLogEvent\<close> of the backend SDK. The source dereferences \<open>EventId\<close> and
  \<open>Timestamp\<close> unchecked (the backend always sets them), so they are plain values.
\<close>

record FilteredLogEvent =
  EventId :: string
  IngestionTime :: int64
  ev_LogStreamName :: string
  Message :: string
  Timestamp :: int64

record logEvent =
  logGroupName :: string
  event :: FilteredLogEvent

text \<open>\<open>cloudwatchlogs.FilterLogEventsInput\<close>, with the fields \<open>tail\<close> sets.\<close>

record FilterLogEventsInput =
  in_LogGroupName :: string
  in_LogStreamNames :: "string list"
  in_Interleaved :: bool
  in_StartTime :: int64
  in_FilterPattern :: "string option"
  in_EndTime :: "int64 option"

text \<open>
  \<open>formatUnixTime\<close> splits its argument with Go's truncating \<open>/\<close> and \<open>%\<close> and hands
  \<open>sec\<close> and \<open>msec*1000\<close> to \<open>time.Unix\<close>; the model returns these two arguments and
  leaves the rendering of the local time in RFC 3339 to the library.
\<close>

definition formatUnixTime :: "int64 \<Rightarrow> int64 \<times> int64" where
  "formatUnixTime unixtime =
     (let sec = word_of_int (sint unixtime sdiv 1000) :: int64;
          msec = word_of_int (sint unixtime smod 1000) :: int64
      in (sec, msec * 1000))"

text \<open>A line written to standard error: a new group, or a new stream with its time.\<close>

datatype announcement = NewGroup string | NewStream string string "int64 \<times> int64"

text \<open>
  The state outside \<open>tail\<close>'s local variables: the global cache, the global sets
  \<open>seenGroup\<close> and \<open>seenStream\<close>, the lines written to standard error, the events sent
  on the channel \<open>ch\<close> (in the order of the sends), the \<open>FilterLogEvents\<close> requests built
  and run, and the number of values received from the channel \<open>start\<close>.
\<close>

record world =
  cache :: cache
  seenGroup :: "string set"
  seenStream :: "string set"
  stderr :: "announcement list"
  ch :: "logEvent list"
  fetches :: "FilterLogEventsInput list"
  ticks :: nat

definition showNewGroup :: "world \<Rightarrow> string \<Rightarrow> world" where
  "showNewGroup w groupName =
     (if groupName \<in> seenGroup w then w
      else w\<lparr>stderr := stderr w @ [NewGroup groupName],
             seenGroup := insert groupName (seenGroup w)\<rparr>)"

text \<open>
  \<open>showNewStream\<close> dereferences \<open>stream.LastEventTimestamp\<close> once the stream is known
  to be new: \<open>None\<close> is the panic on a \<open>nil\<close> pointer.
\<close>

definition showNewStream :: "string \<Rightarrow> world \<Rightarrow> LogStream \<Rightarrow> world option" where
  "showNewStream groupName w stream =
     (let groupStream = groupName @ ''+++'' @ Name stream in
      if groupStream \<in> seenStream w then Some w
      else case LastEventTimestamp stream of
             None \<Rightarrow> None
           | Some ts \<Rightarrow>
               Some (w\<lparr>stderr := stderr w @ [NewStream groupName (Name stream) (formatUnixTime ts)],
                       seenStream := insert groupStream (seenStream w)\<rparr>))"

text \<open>The loops \<open>for _, stream := range streams\<close> of \<open>Tail\<close> and \<open>tail\<close>.\<close>

fun showNewStreams :: "string \<Rightarrow> world \<Rightarrow> LogStream list \<Rightarrow> world option" where
  "showNewStreams groupName w [] = Some w"
| "showNewStreams groupName w (stream # rest) =
     (case showNewStream groupName w stream of
        None \<Rightarrow> None
      | Some w' \<Rightarrow> showNewStreams groupName w' rest)"

text \<open>
  The body of the loop over \<open>output.Events\<close> (lines 212 to 225) on the pair of
  \<open>lastEventTime\<close> and the world. The send on \<open>ch\<close> appends to the sequence of sent events.
\<close>

fun process_event :: "string \<Rightarrow> int64 \<times> world \<Rightarrow> FilteredLogEvent \<Rightarrow> int64 \<times> world" where
  "process_event g (lastEventTime, w) ev =
     (if Cache_Load (cache w) g (EventId ev) then (lastEventTime, w)
      else
        (let w' = w\<lparr>cache := Cache_Store (cache w) g (EventId ev) (Timestamp ev),
                    ch := ch w @ [\<lparr>logGroupName = g, event = ev\<rparr>]\<rparr>
         in (if lastEventTime <s Timestamp ev then Timestamp ev else lastEventTime, w')))"

definition process_events ::
  "string \<Rightarrow> int64 \<times> world \<Rightarrow> FilteredLogEvent list \<Rightarrow> int64 \<times> world" where
  "process_events g s evs = foldl (process_event g) s evs"

text \<open>
  The answers of the \<open>FilterLogEvents\<close> paginator to successive \<open>NextPage\<close> calls. A page
  is the last one exactly when no further answer follows it; a failed call leaves the
  paginator where it was, so the call after a throttling error gets the next answer. A
  sequence that ends before a last page has been delivered is a backend that has not
  answered yet: the loop is still fetching.
\<close>

type_synonym fetch_resp = "backend_error + FilteredLogEvent list"

datatype fetch_status = FetchCompleted | FetchBlocked | FetchFailed error

text \<open>
  The pagination loop of \<open>tail\<close> (lines 200 to 230). On a throttling error the source
  logs a line, sleeps half a second and asks again; the log line and the delay are not part
  of the state modelled here.
\<close>

fun fetch_pages ::
  "string \<Rightarrow> int64 \<times> world \<Rightarrow> fetch_resp list \<Rightarrow> fetch_status \<times> int64 \<times> world" where
  "fetch_pages g s [] = (FetchBlocked, s)"
| "fetch_pages g s (Inl ThrottlingException # rest) = fetch_pages g s rest"
| "fetch_pages g s (Inl e # rest) = (FetchFailed (UnknownErrorWhileFilterLogEvents e), s)"
| "fetch_pages g s (Inr evs # rest) =
     (case process_events g s evs of (lastEventTime, w) \<Rightarrow>
        if rest = []
        then (FetchCompleted, lastEventTime,
              w\<lparr>cache := Cache_Expire (cache w) g lastEventTime\<rparr>)
        else fetch_pages g (lastEventTime, w) rest)"

text \<open>
  \<open>select\<close> on \<open>ctx.Done()\<close> and the channel \<open>start\<close>: which case fired, and with a
  value from \<open>start\<close> what the backend answers in the step that follows.
\<close>

datatype 'a select = CtxDone | Start 'a

type_synonym cycle = "(describe_resp \<times> describe_resp list \<times> fetch_resp list) select"

text \<open>
  Where \<open>tail\<close> is after a sequence of cycles: \<open>Waiting\<close> at the \<open>select\<close>, \<open>Fetching\<close>
  inside the pagination of a fetch, or returned: \<open>Cancelled\<close> is \<open>return nil\<close> of the
  \<open>ctx.Done()\<close> case (line 163), \<open>Done\<close> is \<open>return nil\<close> after a pass with an end time
  (line 233), \<open>Failed\<close> is a returned error, \<open>Panicked\<close> a \<open>nil\<close> dereference.
\<close>

datatype status = Waiting | Fetching | Cancelled | Done | Failed error | Panicked

definition fetch_input :: "Config \<Rightarrow> string \<Rightarrow> string list \<Rightarrow> int64 \<Rightarrow> FilterLogEventsInput" where
  "fetch_input cfg g streamNames lastEventTime =
     \<lparr>in_LogGroupName = g, in_LogStreamNames = streamNames, in_Interleaved = True,
      in_StartTime = lastEventTime,
      in_FilterPattern = (if FilterPattern cfg \<noteq> [] then Some (FilterPattern cfg) else None),
      in_EndTime = (case EndTime cfg of None \<Rightarrow> None | Some e \<Rightarrow> Some (e * 1000))\<rparr>"

text \<open>One iteration of the loop of \<open>tail\<close> after the \<open>select\<close> (lines 167 to 234).\<close>

fun tail_pass ::
  "Config \<Rightarrow> string \<Rightarrow> int64 \<times> world \<Rightarrow> describe_resp \<times> describe_resp list \<times> fetch_resp list \<Rightarrow>
     status \<times> int64 \<times> world" where
  "tail_pass cfg g (lastEventTime, w) (r, rs, fs) =
     (case fst (ListStreams cfg lastEventTime r rs) of
        Inl err \<Rightarrow> (Failed err, lastEventTime, w)
      | Inr strs \<Rightarrow>
          (case showNewStreams g w strs of
             None \<Rightarrow> (Panicked, lastEventTime, w)
           | Some w1 \<Rightarrow>
               (let streamNames = map Name strs in
                if length streamNames = 0 then (Waiting, lastEventTime, w1)
                else if 100 < length streamNames
                then (Failed LogStreamsExceed100, lastEventTime, w1)
                else
                  (let input = fetch_input cfg g streamNames lastEventTime;
                       w2 = w1\<lparr>fetches := fetches w1 @ [input]\<rparr>
                   in (case fetch_pages g (lastEventTime, w2) fs of
                         (FetchFailed err, s') \<Rightarrow> (Failed err, s')
                       | (FetchBlocked, s') \<Rightarrow> (Fetching, s')
                       | (FetchCompleted, s') \<Rightarrow>
                           (if EndTime cfg \<noteq> None then Done else Waiting, s'))))))"

text \<open>The loop of \<open>tail\<close> (lines 160 to 235) over the cycles the environment offers.\<close>

fun tail_loop :: "Config \<Rightarrow> string \<Rightarrow> int64 \<times> world \<Rightarrow> cycle list \<Rightarrow> status \<times> int64 \<times> world" where
  "tail_loop cfg g s [] = (Waiting, s)"
| "tail_loop cfg g s (CtxDone # cs) = (Cancelled, s)"
| "tail_loop cfg g s (Start x # cs) =
     (case tail_pass cfg g (fst s, (snd s)\<lparr>ticks := Suc (ticks (snd s))\<rparr>) x of
        (Waiting, s') \<Rightarrow> tail_loop cfg g s' cs
      | (st, s') \<Rightarrow> (st, s'))"

definition tail :: "Config \<Rightarrow> string \<Rightarrow> world \<Rightarrow> cycle list \<Rightarrow> status \<times> int64 \<times> world" where
  "tail cfg g w cs = tail_loop cfg g (StartTime cfg * 1000, w) cs"

text \<open>
  The loop of \<open>Tail\<close> over the log groups before the tailers are started (lines 99 to
  121): for each group the announcement, the \<open>select\<close>, \<open>ListStreams\<close> from the start
  time and the announcements of its streams. \<open>CheckWaiting\<close> is the loop blocked at a
  \<open>select\<close> for which the environment offers nothing yet.
\<close>

datatype check_status = CheckPassed | CheckWaiting | CheckFailed error | CheckPanicked

fun initial_check ::
  "Config \<Rightarrow> world \<Rightarrow> string list \<Rightarrow> (describe_resp \<times> describe_resp list) select list \<Rightarrow>
     check_status \<times> world" where
  "initial_check cfg w [] env = (CheckPassed, w)"
| "initial_check cfg w (g # gs) [] = (CheckWaiting, showNewGroup w g)"
| "initial_check cfg w (g # gs) (CtxDone # env) = (CheckFailed ContextErr, showNewGroup w g)"
| "initial_check cfg w (g # gs) (Start (r, rs) # env) =
     (let w1 = (showNewGroup w g)\<lparr>ticks := Suc (ticks (showNewGroup w g))\<rparr> in
      case fst (ListStreams cfg (StartTime cfg * 1000) r rs) of
        Inl err \<Rightarrow> (CheckFailed (InitialCheckFailed err), w1)
      | Inr strs \<Rightarrow>
          (case showNewStreams g w1 strs of
             None \<Rightarrow> (CheckPanicked, w1)
           | Some w2 \<Rightarrow> initial_check cfg w2 gs env))"

section \<open>Specification-level notions for stream discovery\<close>

text \<open>
  A backend stream matches when it is not empty, its name passes the name filter and it was
  ingested at or after \<open>since\<close>.
\<close>

definition matching :: "Config \<Rightarrow> int64 \<Rightarrow> sdk_LogStream \<Rightarrow> bool" where
  "matching cfg since s \<longleftrightarrow>
     \<not> is_empty_stream s \<and> LogStreamNameFilter cfg (LogStreamName s) \<and>
     (case sdk_LastIngestionTime s of None \<Rightarrow> False | Some lit \<Rightarrow> since \<le>s lit)"

text \<open>The \<open>LogStream\<close> that \<open>ListStreams\<close> builds for a backend stream (lines 72 to 75).\<close>

definition to_LogStream :: "sdk_LogStream \<Rightarrow> LogStream" where
  "to_LogStream s =
     \<lparr>Name = LogStreamName s, LastEventTimestamp = sdk_LastIngestionTime s,
      FirstEventTimestamp = None, LastIngestionTime = None, UploadSequenceToken = None\<rparr>"

text \<open>The streams a list of examined backend streams contributes to the result.\<close>

definition collected :: "Config \<Rightarrow> int64 \<Rightarrow> sdk_LogStream list \<Rightarrow> LogStream list" where
  "collected cfg since ss = map to_LogStream (filter (matching cfg since) ss)"

text \<open>
  The running minimum \<open>lastIngestionTime\<close> across the non-empty streams of a list,
  \<open>math.MaxInt64\<close> when there is none.
\<close>

definition running_min :: "sdk_LogStream list \<Rightarrow> int64" where
  "running_min ss =
     foldl (\<lambda>m s. case sdk_LastIngestionTime s of
                     None \<Rightarrow> m
                   | Some lit \<Rightarrow> if is_empty_stream s then m else if lit <s m then lit else m)
           MaxInt64 ss"

text \<open>All the streams on the pages of a sequence of answers.\<close>

definition listed :: "describe_resp list \<Rightarrow> sdk_LogStream list" where
  "listed rs = concat (map (\<lambda>r. case r of Inl e \<Rightarrow> [] | Inr page \<Rightarrow> page) rs)"

text \<open>
  The early-exit condition after a page, over all the streams examined so far: the running
  minimum has reached \<open>since\<close>, or no examined stream matches.
\<close>

definition stop_after :: "Config \<Rightarrow> int64 \<Rightarrow> sdk_LogStream list \<Rightarrow> bool" where
  "stop_after cfg since examined \<longleftrightarrow>
     since \<le>s running_min examined \<or> \<not> (\<exists>s \<in> set examined. matching cfg since s)"

section \<open>Specification-level notions for the tailer\<close>

text \<open>The event ids for which \<open>Load\<close> is true in a namespace.\<close>

definition cached :: "cache \<Rightarrow> string \<Rightarrow> string set" where
  "cached c g = {e. Cache_Load c g e}"

text \<open>The events of a list that are not known yet, each id once, at its first occurrence.\<close>

fun new_events :: "string set \<Rightarrow> FilteredLogEvent list \<Rightarrow> FilteredLogEvent list" where
  "new_events known [] = []"
| "new_events known (ev # evs) =
     (if EventId ev \<in> known then new_events known evs
      else ev # new_events (insert (EventId ev) known) evs)"

text \<open>The events of the pages a fetch delivers: those before the first fatal error.\<close>

fun observed :: "fetch_resp list \<Rightarrow> FilteredLogEvent list" where
  "observed [] = []"
| "observed (Inl ThrottlingException # rest) = observed rest"
| "observed (Inl e # rest) = []"
| "observed (Inr evs # rest) = evs @ observed rest"

text \<open>The \<open>logEvent\<close> sent on the channel for an event of group \<open>g\<close>.\<close>

definition to_logEvent :: "string \<Rightarrow> FilteredLogEvent \<Rightarrow> logEvent" where
  "to_logEvent g ev = \<lparr>logGroupName = g, event = ev\<rparr>"

text \<open>The maximum of two timestamps in the signed order.\<close>

definition smax :: "int64 \<Rightarrow> int64 \<Rightarrow> int64" where
  "smax a b = (if a <s b then b else a)"

text \<open>The answers of a fetch lead to a completed pass: there is at least one, none is a fatal
  error, and the last one is a page.\<close>

definition fetch_completes :: "fetch_resp list \<Rightarrow> bool" where
  "fetch_completes fs \<longleftrightarrow>
     fs \<noteq> [] \<and>
     list_all (\<lambda>r. case r of Inl e \<Rightarrow> e = ThrottlingException | Inr evs \<Rightarrow> True) fs \<and>
     (case last fs of Inl e \<Rightarrow> False | Inr evs \<Rightarrow> True)"

text \<open>Where \<open>tail\<close> is after the pagination of a fetch ended with the given status.\<close>

definition pass_status :: "Config \<Rightarrow> fetch_status \<Rightarrow> status" where
  "pass_status cfg fst_status =
     (case fst_status of
        FetchFailed err \<Rightarrow> Failed err
      | FetchBlocked \<Rightarrow> Fetching
      | FetchCompleted \<Rightarrow> if EndTime cfg \<noteq> None then Done else Waiting)"

text \<open>Two worlds agree on what a tailer reads and writes apart from the announcements:
  the cache, the events sent and the fetches run.\<close>

definition same_data :: "world \<Rightarrow> world \<Rightarrow> bool" where
  "same_data w1 w2 \<longleftrightarrow> cache w1 = cache w2 \<and> ch w1 = ch w2 \<and> fetches w1 = fetches w2"

section \<open>Example inputs\<close>

text \<open>A stream that has received events, with all three times equal to \<open>lit\<close>.\<close>

definition nonempty_stream :: "string \<Rightarrow> int64 \<Rightarrow> sdk_LogStream" where
  "nonempty_stream n lit =
     \<lparr>LogStreamName = n, sdk_FirstEventTimestamp = Some lit, sdk_LastEventTimestamp = Some lit,
      sdk_LastIngestionTime = Some lit, sdk_UploadSequenceToken = Some ''token''\<rparr>"

text \<open>A page of \<open>n\<close> streams with distinct names, all ingested at time 100.\<close>

definition many_streams :: "nat \<Rightarrow> sdk_LogStream list" where
  "many_streams n = map (\<lambda>i. nonempty_stream (CHR ''s'' # replicate i (CHR ''x'')) 100) [0..<n]"

text \<open>Recency mode: no name prefix, a name filter that accepts every name, no end time.\<close>

definition cfg_recency :: Config where
  "cfg_recency =
     \<lparr>LogStreamNamePrefix = [], LogStreamNameFilter = (\<lambda>n. True), FilterPattern = [],
      StartTime = 0, EndTime = None\<rparr>"

text \<open>Prefix mode.\<close>

definition cfg_prefix :: Config where
  "cfg_prefix = cfg_recency\<lparr>LogStreamNamePrefix := ''app''\<rparr>"

text \<open>Recency mode with an end time of 200 seconds.\<close>

definition cfg_end :: Config where
  "cfg_end = cfg_recency\<lparr>EndTime := Some 200\<rparr>"

text \<open>An event with the given id and timestamp.\<close>

definition log_event :: "string \<Rightarrow> int64 \<Rightarrow> FilteredLogEvent" where
  "log_event eid ts =
     \<lparr>EventId = eid, IngestionTime = ts, ev_LogStreamName = ''s1'', Message = ''m'',
      Timestamp = ts\<rparr>"

text \<open>The world before anything has run: empty cache, nothing seen, nothing sent.\<close>

definition world0 :: world where
  "world0 =
     \<lparr>cache = (\<lambda>ns. Map.empty), seenGroup = {}, seenStream = {}, stderr = [], ch = [],
      fetches = [], ticks = 0\<rparr>"

section \<open>Properties of \<open>ListStreams\<close>\<close>

lemma examine_stream_streams:
  "streams (examine_stream cfg since st s) = streams st @ collected cfg since [s]"
  by (auto simp: examine_stream_def collected_def matching_def to_LogStream_def Let_def
        is_empty_stream_def signed.not_less split: option.splits)

lemma examine_stream_hasUpdated:
  "hasUpdatedStream (examine_stream cfg since st s) \<longleftrightarrow> hasUpdatedStream st \<or> matching cfg since s"
  by (auto simp: examine_stream_def matching_def Let_def
        is_empty_stream_def signed.not_less split: option.splits)

lemma examine_page_streams:
  "streams (examine_page cfg since st page) = streams st @ collected cfg since page"
proof (induction page arbitrary: st)
  case Nil
  show ?case by (simp add: examine_page_def collected_def)
next
  case (Cons s page)
  have "streams (examine_page cfg since st (s # page)) =
        streams (examine_page cfg since (examine_stream cfg since st s) page)"
    by (simp add: examine_page_def)
  also have "\<dots> = streams (examine_stream cfg since st s) @ collected cfg since page"
    by (rule Cons.IH)
  also have "\<dots> = streams st @ collected cfg since (s # page)"
    by (simp add: examine_stream_streams collected_def)
  finally show ?case .
qed

lemma examine_page_hasUpdated:
  "hasUpdatedStream (examine_page cfg since st page) \<longleftrightarrow>
     hasUpdatedStream st \<or> (\<exists>s \<in> set page. matching cfg since s)"
  by (induction page arbitrary: st) (auto simp: examine_page_def examine_stream_hasUpdated)

lemma examine_page_append:
  "examine_page cfg since st (a @ b) = examine_page cfg since (examine_page cfg since st a) b"
  by (simp add: examine_page_def)

lemma examine_stream_min:
  "minLastIngestionTime (examine_stream cfg since st s) =
     (case sdk_LastIngestionTime s of
        None \<Rightarrow> minLastIngestionTime st
      | Some lit \<Rightarrow> if is_empty_stream s then minLastIngestionTime st
                    else if lit <s minLastIngestionTime st then lit else minLastIngestionTime st)"
  by (auto simp: examine_stream_def Let_def is_empty_stream_def split: option.splits)

lemma examine_page_min:
  "minLastIngestionTime (examine_page cfg since st page) =
     foldl (\<lambda>m s. case sdk_LastIngestionTime s of
                     None \<Rightarrow> m
                   | Some lit \<Rightarrow> if is_empty_stream s then m else if lit <s m then lit else m)
           (minLastIngestionTime st) page"
proof (induction page arbitrary: st)
  case Nil
  show ?case by (simp add: examine_page_def)
next
  case (Cons s page)
  have "examine_page cfg since st (s # page) =
        examine_page cfg since (examine_stream cfg since st s) page"
    by (simp add: examine_page_def)
  then show ?case
    using Cons.IH [of "examine_stream cfg since st s"] by (simp add: examine_stream_min)
qed

lemma examined_streams: "streams (examine_page cfg since ls_init ss) = collected cfg since ss"
  by (simp add: examine_page_streams ls_init_def)

lemma examined_hasUpdated:
  "hasUpdatedStream (examine_page cfg since ls_init ss) \<longleftrightarrow> (\<exists>s \<in> set ss. matching cfg since s)"
  by (simp add: examine_page_hasUpdated ls_init_def)

lemma examined_min: "minLastIngestionTime (examine_page cfg since ls_init ss) = running_min ss"
  by (simp add: examine_page_min running_min_def ls_init_def)

lemma examined_stop:
  "since \<le>s minLastIngestionTime (examine_page cfg since ls_init ss) \<or>
   \<not> hasUpdatedStream (examine_page cfg since ls_init ss) \<longleftrightarrow> stop_after cfg since ss"
  by (simp add: stop_after_def examined_min examined_hasUpdated)

text \<open>\<open>running_min\<close> is the minimum over the non-empty streams, or \<open>math.MaxInt64\<close>.\<close>

lemma running_min_snoc:
  "running_min (ss @ [s]) =
     (case sdk_LastIngestionTime s of
        None \<Rightarrow> running_min ss
      | Some lit \<Rightarrow> if is_empty_stream s then running_min ss
                    else if lit <s running_min ss then lit else running_min ss)"
  unfolding running_min_def by simp

lemma running_min_le:
  "s \<in> set ss \<Longrightarrow> \<not> is_empty_stream s \<Longrightarrow> sdk_LastIngestionTime s = Some lit \<Longrightarrow>
   running_min ss \<le>s lit"
proof (induction ss rule: rev_induct)
  case Nil
  then show ?case by simp
next
  case (snoc x xs)
  show ?case
  proof (cases "s = x")
    case True
    with snoc.prems show ?thesis
      by (simp add: running_min_snoc word_sle_eq word_sless_alt)
  next
    case False
    with snoc.prems have "s \<in> set xs" by simp
    from snoc.IH [OF this snoc.prems(2,3)] show ?thesis
      by (auto simp: running_min_snoc word_sle_eq word_sless_alt split: option.splits)
  qed
qed

lemma running_min_attained:
  "running_min ss = MaxInt64 \<or>
   (\<exists>s \<in> set ss. \<not> is_empty_stream s \<and> sdk_LastIngestionTime s = Some (running_min ss))"
proof (induction ss rule: rev_induct)
  case Nil
  show ?case by (simp add: running_min_def)
next
  case (snoc x xs)
  then show ?case
    by (auto simp: running_min_snoc split: option.splits)
qed

lemma paginate_prefix:
  "LogStreamNamePrefix cfg \<noteq> [] \<Longrightarrow>
   paginate cfg since st (Inr page) rest = (Inr (streams (examine_page cfg since st page)), rest)"
  by (simp add: Let_def)

lemma paginate_recency_stop:
  assumes "LogStreamNamePrefix cfg = []"
    and "stop_after cfg since (seen @ page)"
  shows "paginate cfg since (examine_page cfg since ls_init seen) (Inr page) rest =
           (Inr (collected cfg since (seen @ page)), rest)"
proof -
  have e: "examine_page cfg since (examine_page cfg since ls_init seen) page =
           examine_page cfg since ls_init (seen @ page)"
    by (simp add: examine_page_append)
  from assms(2) have
    "since \<le>s minLastIngestionTime (examine_page cfg since ls_init (seen @ page)) \<or>
     \<not> hasUpdatedStream (examine_page cfg since ls_init (seen @ page))"
    by (simp only: examined_stop)
  then show ?thesis
    using assms(1) by (auto simp: Let_def e examined_streams)
qed

lemma paginate_recency_last:
  assumes "LogStreamNamePrefix cfg = []"
  shows "paginate cfg since (examine_page cfg since ls_init seen) (Inr page) [] =
           (Inr (collected cfg since (seen @ page)), [])"
proof -
  have e: "examine_page cfg since (examine_page cfg since ls_init seen) page =
           examine_page cfg since ls_init (seen @ page)"
    by (simp add: examine_page_append)
  show ?thesis
    using assms by (simp add: Let_def e examined_streams)
qed

lemma paginate_recency_continue:
  assumes "LogStreamNamePrefix cfg = []"
    and "\<not> stop_after cfg since (seen @ page)"
  shows "paginate cfg since (examine_page cfg since ls_init seen) (Inr page) (r # rs) =
           paginate cfg since (examine_page cfg since ls_init (seen @ page)) r rs"
proof -
  have e: "examine_page cfg since (examine_page cfg since ls_init seen) page =
           examine_page cfg since ls_init (seen @ page)"
    by (simp add: examine_page_append)
  from assms(2) have
    "\<not> (since \<le>s minLastIngestionTime (examine_page cfg since ls_init (seen @ page)) \<or>
     \<not> hasUpdatedStream (examine_page cfg since ls_init (seen @ page)))"
    by (simp only: examined_stop not_False_eq_True)
  then show ?thesis
    using assms(1) by (simp add: Let_def e)
qed

lemma paginate_recency_pages:
  assumes rec: "LogStreamNamePrefix cfg = []"
  shows "\<exists>n. 1 \<le> n \<and> n \<le> Suc (length ps) \<and>
           paginate cfg since (examine_page cfg since ls_init seen) (Inr p) (map Inr ps) =
             (Inr (collected cfg since (seen @ concat (take n (p # ps)))), map Inr (drop n (p # ps))) \<and>
           (n = Suc (length ps) \<or> stop_after cfg since (seen @ concat (take n (p # ps)))) \<and>
           (\<forall>i. 1 \<le> i \<and> i < n \<longrightarrow> \<not> stop_after cfg since (seen @ concat (take i (p # ps))))"
proof (induction ps arbitrary: seen p)
  case Nil
  have "paginate cfg since (examine_page cfg since ls_init seen) (Inr p) (map Inr []) =
          (Inr (collected cfg since (seen @ concat (take 1 [p]))), map Inr (drop 1 [p]))"
    using paginate_recency_last [OF rec] by simp
  then show ?case by (intro exI [of _ 1]) simp
next
  case (Cons q qs)
  show ?case
  proof (cases "stop_after cfg since (seen @ p)")
    case True
    have "paginate cfg since (examine_page cfg since ls_init seen) (Inr p) (map Inr (q # qs)) =
            (Inr (collected cfg since (seen @ concat (take 1 (p # q # qs)))),
             map Inr (drop 1 (p # q # qs)))"
      using paginate_recency_stop [OF rec True] by simp
    moreover have "stop_after cfg since (seen @ concat (take 1 (p # q # qs)))"
      using True by simp
    ultimately show ?thesis by (intro exI [of _ 1]) simp
  next
    case False
    from Cons.IH [of "seen @ p" q] obtain n where n: "1 \<le> n" "n \<le> Suc (length qs)"
      and res: "paginate cfg since (examine_page cfg since ls_init (seen @ p)) (Inr q) (map Inr qs) =
             (Inr (collected cfg since ((seen @ p) @ concat (take n (q # qs)))), map Inr (drop n (q # qs)))"
      and stop: "n = Suc (length qs) \<or> stop_after cfg since ((seen @ p) @ concat (take n (q # qs)))"
      and least: "\<forall>i. 1 \<le> i \<and> i < n \<longrightarrow> \<not> stop_after cfg since ((seen @ p) @ concat (take i (q # qs)))"
      by blast
    have step: "paginate cfg since (examine_page cfg since ls_init seen) (Inr p) (map Inr (q # qs)) =
                paginate cfg since (examine_page cfg since ls_init (seen @ p)) (Inr q) (map Inr qs)"
      using paginate_recency_continue [OF rec False] by simp
    have least': "\<not> stop_after cfg since (seen @ concat (take i (p # q # qs)))"
      if "1 \<le> i \<and> i < Suc n" for i
    proof (cases i)
      case 0
      with that show ?thesis by simp
    next
      case (Suc j)
      show ?thesis
      proof (cases j)
        case 0
        with Suc False show ?thesis by simp
      next
        case (Suc k)
        with \<open>i = Suc j\<close> that have "1 \<le> j \<and> j < n" by simp
        with least have "\<not> stop_after cfg since ((seen @ p) @ concat (take j (q # qs)))" by blast
        with \<open>i = Suc j\<close> show ?thesis by simp
      qed
    qed
    show ?thesis
      apply (intro exI [of _ "Suc n"])
      using n res stop least' step by simp
  qed
qed

text \<open>
  C5, as amended: in recency mode, over a listing of pages, \<open>ListStreams\<close> requests \<open>n\<close>
  pages and returns the matching streams of these, where \<open>n\<close> is the first page after which
  (a) the running minimum \<open>lastIngestionTime\<close> of the non-empty streams examined so far
  is at least \<open>since\<close>, or (b) no page examined so far has contributed a matching stream;
  when there is no such page, every page is requested.
\<close>

theorem ListStreams_recency_stops_exactly_when:
  assumes "LogStreamNamePrefix cfg = []"
  shows "\<exists>n. 1 \<le> n \<and> n \<le> Suc (length ps) \<and>
           ListStreams cfg since (Inr p) (map Inr ps) =
             (Inr (collected cfg since (concat (take n (p # ps)))), map Inr (drop n (p # ps))) \<and>
           (n = Suc (length ps) \<or> stop_after cfg since (concat (take n (p # ps)))) \<and>
           (\<forall>i. 1 \<le> i \<and> i < n \<longrightarrow> \<not> stop_after cfg since (concat (take i (p # ps))))"
proof -
  have "examine_page cfg since ls_init [] = ls_init"
    by (simp add: examine_page_def)
  with paginate_recency_pages [OF assms, where seen = "[]" and p = p and ps = ps and since = since] show ?thesis
    by (simp add: ListStreams_def)
qed

lemma paginate_not_found:
  assumes "r # rest = map Inr ps @ Inl ResourceNotFoundException # later"
  shows "paginate cfg since (examine_page cfg since ls_init seen) r rest =
           (Inr (collected cfg since (seen @ concat ps)), later) \<or>
         (\<exists>n. 1 \<le> n \<and> n \<le> length ps \<and>
            paginate cfg since (examine_page cfg since ls_init seen) r rest =
              (Inr (collected cfg since (seen @ concat (take n ps))),
               map Inr (drop n ps) @ Inl ResourceNotFoundException # later))"
  using assms
proof (induction ps arbitrary: seen r rest)
  case Nil
  then show ?case by (simp add: examined_streams)
next
  case (Cons p ps)
  then have r: "r = Inr p" and rest: "rest = map Inr ps @ Inl ResourceNotFoundException # later"
    by simp_all
  have e: "examine_page cfg since (examine_page cfg since ls_init seen) p =
           examine_page cfg since ls_init (seen @ p)"
    by (simp add: examine_page_append)
  let ?st = "examine_page cfg since ls_init (seen @ p)"
  show ?case
  proof (cases "LogStreamNamePrefix cfg \<noteq> [] \<or> since \<le>s minLastIngestionTime ?st \<or>
                \<not> hasUpdatedStream ?st")
    case True
    then have "paginate cfg since (examine_page cfg since ls_init seen) r rest =
                 (Inr (collected cfg since (seen @ concat (take 1 (p # ps)))),
                  map Inr (drop 1 (p # ps)) @ Inl ResourceNotFoundException # later)"
      by (auto simp: r rest Let_def e examined_streams)
    then show ?thesis by (intro disjI2 exI [of _ 1]) simp
  next
    case False
    obtain r' rest' where rr: "rest = r' # rest'"
      using rest by (cases ps) auto
    from False have step: "paginate cfg since (examine_page cfg since ls_init seen) r rest =
                           paginate cfg since ?st r' rest'"
      by (simp add: r rr Let_def e)
    from Cons.IH [of r' rest' "seen @ p"] rest rr
    consider (a) "paginate cfg since ?st r' rest' =
                    (Inr (collected cfg since ((seen @ p) @ concat ps)), later)"
      | (b) n where "1 \<le> n" "n \<le> length ps"
          "paginate cfg since ?st r' rest' =
             (Inr (collected cfg since ((seen @ p) @ concat (take n ps))),
              map Inr (drop n ps) @ Inl ResourceNotFoundException # later)"
      by auto
    then show ?thesis
    proof cases
      case a
      with step show ?thesis by simp
    next
      case b
      with step show ?thesis by (intro disjI2 exI [of _ "Suc n"]) simp
    qed
  qed
qed

text \<open>
  C6, as amended: when the listing consists of pages followed by a group-not-found
  answer, \<open>ListStreams\<close> returns no error; either the not-found answer was requested, and
  the result is the list of the matching streams collected from all the pages before it
  (the empty list when it is the first answer), or pagination stopped at an earlier page.
\<close>

theorem ListStreams_group_not_found:
  assumes "r # rest = map Inr ps @ Inl ResourceNotFoundException # later"
  shows "ListStreams cfg since r rest = (Inr (collected cfg since (concat ps)), later) \<or>
         (\<exists>n. 1 \<le> n \<and> n \<le> length ps \<and>
            ListStreams cfg since r rest =
              (Inr (collected cfg since (concat (take n ps))),
               map Inr (drop n ps) @ Inl ResourceNotFoundException # later))"
proof -
  have "examine_page cfg since ls_init [] = ls_init"
    by (simp add: examine_page_def)
  with paginate_not_found [OF assms, where seen = "[]" and cfg = cfg and since = since] show ?thesis
    by (simp add: ListStreams_def)
qed

lemma listed_simps:
  "listed [] = []"
  "listed (Inr page # rest) = page @ listed rest"
  "listed (Inl e # rest) = listed rest"
  by (simp_all add: listed_def)

lemma paginate_subset:
  "fst (paginate cfg since st r rest) = Inr xs \<Longrightarrow>
   set xs \<subseteq> set (streams st) \<union> to_LogStream ` {s \<in> set (listed (r # rest)). matching cfg since s}"
proof (induction cfg since st r rest rule: paginate.induct)
  case (4 cfg since st page rest)
  let ?st = "examine_page cfg since st page"
  have sub: "set (streams ?st) \<subseteq>
        set (streams st) \<union> to_LogStream ` {s \<in> set (listed (Inr page # rest)). matching cfg since s}"
    by (auto simp: examine_page_streams collected_def listed_def)
  show ?case
  proof (cases "LogStreamNamePrefix cfg \<noteq> [] \<or> since \<le>s minLastIngestionTime ?st \<or>
                \<not> hasUpdatedStream ?st \<or> rest = []")
    case True
    with "4.prems" have "xs = streams ?st"
      by (auto simp: Let_def split: if_splits)
    with sub show ?thesis by simp
  next
    case False
    then obtain r' rs where rr: "rest = r' # rs" by (cases rest) auto
    from False "4.prems" have "fst (paginate cfg since ?st r' rs) = Inr xs"
      by (simp add: Let_def rr)
    with "4.IH" [OF refl _ _ _ rr] False
    have "set xs \<subseteq> set (streams ?st) \<union>
            to_LogStream ` {s \<in> set (listed (r' # rs)). matching cfg since s}"
      by simp
    moreover have "set (listed (r' # rs)) \<subseteq> set (listed (Inr page # rest))"
      by (simp add: rr listed_simps)
    ultimately show ?thesis using sub by blast
  qed
qed (auto simp: listed_simps)

lemma ListStreams_subset:
  "fst (ListStreams cfg since r rest) = Inr xs \<Longrightarrow>
   set xs \<subseteq> to_LogStream ` {s \<in> set (listed (r # rest)). matching cfg since s}"
  using paginate_subset [of cfg since ls_init r rest xs]
  by (simp add: ListStreams_def ls_init_def)

lemmas example_defs =
  ListStreams_def ls_init_def examine_page_def examine_stream_def is_empty_stream_def
  nonempty_stream_def cfg_recency_def cfg_prefix_def MaxInt64_def Let_def
  collected_def matching_def to_LogStream_def running_min_def stop_after_def

text \<open>
  C3: the claim is that in prefix mode \<open>ListStreams\<close> consumes every page of the listing.
  The code leaves the loop after the first page whenever a prefix is configured (line 79):
  with a listing of two pages, the matching stream of the second page is neither requested
  nor returned.
\<close>

theorem ListStreams_prefix_mode_stops_after_first_page:
  "ListStreams cfg_prefix 10 (Inr [nonempty_stream ''app-1'' 100]) [Inr [nonempty_stream ''app-2'' 200] ] =
     (Inr [to_LogStream (nonempty_stream ''app-1'' 100)], [Inr [nonempty_stream ''app-2'' 200] ]) \<and>
   matching cfg_prefix 10 (nonempty_stream ''app-2'' 200)"
  by (simp add: example_defs)

text \<open>
  C4: the claim is that an early exit on \<open>minLastIngestionTime >= since\<close> misses no
  matching stream of the pages not examined, when those streams are not newer than the
  minimum \<open>m\<close> examined so far. With \<open>since = 10\<close> and a first page whose only stream
  was ingested at 100, the code exits after that page (line 82), although the stream of the
  second page, ingested at 50 (not above \<open>m = 100\<close>, not below \<open>since\<close>), matches.
\<close>

theorem ListStreams_early_exit_misses_stream:
  "ListStreams cfg_recency 10 (Inr [nonempty_stream ''a'' 100]) [Inr [nonempty_stream ''b'' 50] ] =
     (Inr [to_LogStream (nonempty_stream ''a'' 100)], [Inr [nonempty_stream ''b'' 50] ]) \<and>
   running_min [nonempty_stream ''a'' 100] = 100 \<and> (10 :: int64) \<le>s 100 \<and>
   (50 :: int64) \<le>s 100 \<and>
   matching cfg_recency 10 (nonempty_stream ''b'' 50)"
  by (simp add: example_defs)

text \<open>
  C5, counterexample: with \<open>since = 10\<close> the second page contributes no matching stream
  (its only stream was ingested at 3), yet the third page is still requested: the flag
  \<open>hasUpdatedStream\<close> was set by the first page and is never reset.
\<close>

theorem ListStreams_continues_after_page_without_match:
  "collected cfg_recency 10 [nonempty_stream ''c'' 3] = [] \<and>
   ListStreams cfg_recency 10 (Inr [nonempty_stream ''a'' 100, nonempty_stream ''b'' 5])
       [Inr [nonempty_stream ''c'' 3], Inr [nonempty_stream ''d'' 2] ] =
     (Inr [to_LogStream (nonempty_stream ''a'' 100)], [])"
  by (simp add: example_defs)

text \<open>
  C6, counterexample: the not-found condition on the second page, after a first page that
  contributed a stream, returns that stream and no error: the list is not empty.
\<close>

theorem ListStreams_group_not_found_keeps_streams:
  "ListStreams cfg_recency 10 (Inr [nonempty_stream ''a'' 100, nonempty_stream ''b'' 5])
       [Inl ResourceNotFoundException] =
     (Inr [to_LogStream (nonempty_stream ''a'' 100)], [])"
  by (simp add: example_defs)

theorem ListStreams_recency_stops_exactly_when_witness:
  "LogStreamNamePrefix cfg_recency = [] \<and>
   (\<exists>n. 1 \<le> n \<and> n \<le> Suc (length [ [nonempty_stream ''c'' 3] ]) \<and>
      ListStreams cfg_recency 10 (Inr [nonempty_stream ''a'' 100, nonempty_stream ''b'' 5])
          (map Inr [ [nonempty_stream ''c'' 3] ]) =
        (Inr (collected cfg_recency 10
                (concat (take n [ [nonempty_stream ''a'' 100, nonempty_stream ''b'' 5],
                                 [nonempty_stream ''c'' 3] ]))),
         map Inr (drop n [ [nonempty_stream ''a'' 100, nonempty_stream ''b'' 5],
                          [nonempty_stream ''c'' 3] ])) \<and>
      (n = Suc (length [ [nonempty_stream ''c'' 3] ]) \<or>
       stop_after cfg_recency 10
         (concat (take n [ [nonempty_stream ''a'' 100, nonempty_stream ''b'' 5],
                          [nonempty_stream ''c'' 3] ]))) \<and>
      (\<forall>i. 1 \<le> i \<and> i < n \<longrightarrow>
         \<not> stop_after cfg_recency 10
             (concat (take i [ [nonempty_stream ''a'' 100, nonempty_stream ''b'' 5],
                              [nonempty_stream ''c'' 3] ]))))"
proof -
  have h: "LogStreamNamePrefix cfg_recency = []" by (simp add: cfg_recency_def)
  show ?thesis
    using h ListStreams_recency_stops_exactly_when [OF h, of "[ [nonempty_stream ''c'' 3] ]" 10
      "[nonempty_stream ''a'' 100, nonempty_stream ''b'' 5]"]
    by blast
qed

theorem ListStreams_group_not_found_witness:
  "Inr [nonempty_stream ''a'' 100, nonempty_stream ''b'' 5] #
     [Inl ResourceNotFoundException, Inr [nonempty_stream ''c'' 30] ] =
   map Inr [ [nonempty_stream ''a'' 100, nonempty_stream ''b'' 5] ] @
     Inl ResourceNotFoundException # [Inr [nonempty_stream ''c'' 30] ] \<and>
   (ListStreams cfg_recency 10 (Inr [nonempty_stream ''a'' 100, nonempty_stream ''b'' 5])
        [Inl ResourceNotFoundException, Inr [nonempty_stream ''c'' 30] ] =
      (Inr (collected cfg_recency 10
              (concat [ [nonempty_stream ''a'' 100, nonempty_stream ''b'' 5] ])),
       [Inr [nonempty_stream ''c'' 30] ]) \<or>
    (\<exists>n. 1 \<le> n \<and> n \<le> length [ [nonempty_stream ''a'' 100, nonempty_stream ''b'' 5] ] \<and>
       ListStreams cfg_recency 10 (Inr [nonempty_stream ''a'' 100, nonempty_stream ''b'' 5])
           [Inl ResourceNotFoundException, Inr [nonempty_stream ''c'' 30] ] =
         (Inr (collected cfg_recency 10
                 (concat (take n [ [nonempty_stream ''a'' 100, nonempty_stream ''b'' 5] ]))),
          map Inr (drop n [ [nonempty_stream ''a'' 100, nonempty_stream ''b'' 5] ]) @
            Inl ResourceNotFoundException # [Inr [nonempty_stream ''c'' 30] ])))"
proof -
  have h: "Inr [nonempty_stream ''a'' 100, nonempty_stream ''b'' 5] #
             [Inl ResourceNotFoundException, Inr [nonempty_stream ''c'' 30] ] =
           map Inr [ [nonempty_stream ''a'' 100, nonempty_stream ''b'' 5] ] @
             Inl ResourceNotFoundException # [Inr [nonempty_stream ''c'' 30] ]"
    by simp
  show ?thesis
    using h ListStreams_group_not_found [OF h, of cfg_recency 10] by blast
qed

section \<open>The fetch pass: deduplication and the watermark\<close>

lemma cached_iff: "Cache_Load c g e \<longleftrightarrow> e \<in> cached c g"
  by (simp add: cached_def)

lemma cached_Store: "cached (Cache_Store c g eid ts) g = insert eid (cached c g)"
  by (auto simp: cached_def Cache_Load_def Cache_Store_def)

lemma process_events_Nil: "process_events g s [] = s"
  by (simp add: process_events_def)

lemma process_events_Cons:
  "process_events g s (ev # evs) = process_events g (process_event g s ev) evs"
  by (simp add: process_events_def)

lemma process_events_append:
  "process_events g s (a @ b) = process_events g (process_events g s a) b"
  by (simp add: process_events_def)

lemma process_event_cases:
  "process_event g (t, w) ev =
     (if EventId ev \<in> cached (cache w) g then (t, w)
      else (smax t (Timestamp ev),
            w\<lparr>cache := Cache_Store (cache w) g (EventId ev) (Timestamp ev),
              ch := ch w @ [to_logEvent g ev]\<rparr>))"
  by (simp add: cached_iff smax_def to_logEvent_def Let_def)

lemma process_events_ch:
  "ch (snd (process_events g (t, w) evs)) =
     ch w @ map (to_logEvent g) (new_events (cached (cache w) g) evs)"
proof (induction evs arbitrary: t w)
  case Nil
  show ?case by (simp add: process_events_Nil)
next
  case (Cons ev evs)
  show ?case
    by (simp add: process_events_Cons process_event_cases Cons.IH cached_Store
          del: process_event.simps)
qed

lemma process_events_watermark:
  "fst (process_events g (t, w) evs) =
     foldl smax t (map Timestamp (new_events (cached (cache w) g) evs))"
proof (induction evs arbitrary: t w)
  case Nil
  show ?case by (simp add: process_events_Nil)
next
  case (Cons ev evs)
  show ?case
    by (simp add: process_events_Cons process_event_cases Cons.IH cached_Store
          del: process_event.simps)
qed

lemma process_events_cached:
  "cached (cache (snd (process_events g (t, w) evs))) g = cached (cache w) g \<union> EventId ` set evs"
proof (induction evs arbitrary: t w)
  case Nil
  show ?case by (simp add: process_events_Nil)
next
  case (Cons ev evs)
  show ?case
    by (auto simp: process_events_Cons process_event_cases Cons.IH cached_Store
          simp del: process_event.simps)
qed

lemma new_events_append:
  "new_events known (a @ b) = new_events known a @ new_events (known \<union> EventId ` set a) b"
proof (induction a arbitrary: known)
  case Nil
  show ?case by simp
next
  case (Cons ev a)
  show ?case
  proof (cases "EventId ev \<in> known")
    case True
    then have "known \<union> EventId ` set (ev # a) = known \<union> EventId ` set a" by auto
    with True show ?thesis using Cons.IH [of known] by simp
  next
    case False
    have "known \<union> EventId ` set (ev # a) = insert (EventId ev) known \<union> EventId ` set a" by auto
    with False show ?thesis using Cons.IH [of "insert (EventId ev) known"] by simp
  qed
qed

lemma new_events_filter:
  "filter (\<lambda>ev. EventId ev = e) (new_events known evs) =
     (if e \<in> known then []
      else case find (\<lambda>ev. EventId ev = e) evs of None \<Rightarrow> [] | Some ev \<Rightarrow> [ev])"
proof (induction evs arbitrary: known)
  case Nil
  show ?case by simp
next
  case (Cons ev evs)
  show ?case
    by (auto simp: Cons.IH)
qed

lemma process_events_frame:
  "fetches (snd (process_events g (t, w) evs)) = fetches w \<and>
   ticks (snd (process_events g (t, w) evs)) = ticks w \<and>
   stderr (snd (process_events g (t, w) evs)) = stderr w \<and>
   seenStream (snd (process_events g (t, w) evs)) = seenStream w \<and>
   seenGroup (snd (process_events g (t, w) evs)) = seenGroup w"
proof (induction evs arbitrary: t w)
  case Nil
  show ?case by (simp add: process_events_Nil)
next
  case (Cons ev evs)
  show ?case
    by (simp add: process_events_Cons process_event_cases Cons.IH del: process_event.simps)
qed

lemma fetch_pages_Inr:
  "fetch_pages g (t, w) (Inr evs # rest) =
     (if rest = []
      then (FetchCompleted, fst (process_events g (t, w) evs),
            (snd (process_events g (t, w) evs))
              \<lparr>cache := Cache_Expire (cache (snd (process_events g (t, w) evs))) g
                          (fst (process_events g (t, w) evs))\<rparr>)
      else fetch_pages g (fst (process_events g (t, w) evs), snd (process_events g (t, w) evs)) rest)"
  by (simp add: case_prod_beta)

lemma fetch_pages_effect:
  "ch (snd (snd (fetch_pages g (t, w) fs))) =
     ch w @ map (to_logEvent g) (new_events (cached (cache w) g) (observed fs)) \<and>
   fst (snd (fetch_pages g (t, w) fs)) =
     foldl smax t (map Timestamp (new_events (cached (cache w) g) (observed fs))) \<and>
   fetches (snd (snd (fetch_pages g (t, w) fs))) = fetches w \<and>
   ticks (snd (snd (fetch_pages g (t, w) fs))) = ticks w"
proof (induction fs arbitrary: t w)
  case Nil
  show ?case by simp
next
  case (Cons r fs)
  show ?case
  proof (cases r)
    case (Inl e)
    then show ?thesis using Cons.IH [of t w] by (cases e) simp_all
  next
    case (Inr evs)
    let ?s = "process_events g (t, w) evs"
    show ?thesis
    proof (cases "fs = []")
      case True
      then show ?thesis
        by (simp add: Inr fetch_pages_Inr process_events_ch process_events_watermark
              process_events_frame del: fetch_pages.simps)
    next
      case False
      then show ?thesis
        using Cons.IH [of "fst ?s" "snd ?s"]
        by (simp add: Inr fetch_pages_Inr process_events_ch process_events_watermark
              process_events_frame process_events_cached new_events_append
              del: fetch_pages.simps)
    qed
  qed
qed

lemma fetch_pages_status:
  "fst (fetch_pages g (t, w) fs) = FetchCompleted \<longleftrightarrow> fetch_completes fs"
proof (induction fs arbitrary: t w)
  case Nil
  show ?case by (simp add: fetch_completes_def)
next
  case (Cons r fs)
  show ?case
  proof (cases r)
    case (Inl e)
    then show ?thesis using Cons.IH [of t w]
      by (cases e) (auto simp: fetch_completes_def)
  next
    case (Inr evs)
    let ?s = "process_events g (t, w) evs"
    show ?thesis
    proof (cases "fs = []")
      case True
      then show ?thesis
        by (simp add: Inr fetch_pages_Inr fetch_completes_def del: fetch_pages.simps)
    next
      case False
      then show ?thesis
        using Cons.IH [of "fst ?s" "snd ?s"]
        by (simp add: Inr fetch_pages_Inr fetch_completes_def del: fetch_pages.simps)
    qed
  qed
qed

lemma smax_sint: "sint (smax a b) = max (sint a) (sint b)"
  by (simp add: smax_def word_sless_alt max_def)

lemma foldl_smax_sint:
  "sint (foldl smax t xs) = Max (insert (sint t) (sint ` set xs))"
proof (induction xs arbitrary: t)
  case Nil
  show ?case by simp
next
  case (Cons x xs)
  have "sint (foldl smax t (x # xs)) = Max (insert (sint (smax t x)) (sint ` set xs))"
    by (simp add: Cons.IH)
  also have "\<dots> = Max (insert (max (sint t) (sint x)) (sint ` set xs))"
    by (simp add: smax_sint)
  also have "\<dots> = Max (insert (sint t) (sint ` set (x # xs)))"
  proof (cases "xs = []")
    case True
    then show ?thesis by (simp add: max.commute)
  next
    case False
    then show ?thesis by (simp add: max.assoc max.left_commute)
  qed
  finally show ?case .
qed

section \<open>The loop of \<open>tail\<close>\<close>

lemma ListStreams_timestamps:
  assumes "fst (ListStreams cfg since r rest) = Inr xs" and "x \<in> set xs"
  shows "LastEventTimestamp x \<noteq> None"
proof -
  from ListStreams_subset [OF assms(1)] assms(2)
  obtain s where "matching cfg since s" and "x = to_LogStream s" by auto
  then show ?thesis
    by (auto simp: matching_def to_LogStream_def is_empty_stream_def)
qed

lemma showNewStream_effect:
  assumes "LastEventTimestamp x \<noteq> None"
  shows "\<exists>w'. showNewStream g w x = Some w' \<and> same_data w' w \<and> ticks w' = ticks w"
  using assms by (auto simp: showNewStream_def Let_def same_data_def)

lemma same_data_refl: "same_data w w"
  by (simp add: same_data_def)

lemma same_data_trans: "same_data a b \<Longrightarrow> same_data b c \<Longrightarrow> same_data a c"
  by (simp add: same_data_def)

lemma same_data_sym: "same_data a b \<Longrightarrow> same_data b a"
  by (simp add: same_data_def)

lemma showNewStreams_effect:
  assumes "\<forall>x \<in> set xs. LastEventTimestamp x \<noteq> None"
  shows "\<exists>w'. showNewStreams g w xs = Some w' \<and> same_data w' w \<and> ticks w' = ticks w"
  using assms
proof (induction xs arbitrary: w)
  case Nil
  show ?case by (simp add: same_data_refl)
next
  case (Cons x xs)
  from Cons.prems have "LastEventTimestamp x \<noteq> None" by simp
  from showNewStream_effect [OF this, of g w]
  obtain w1 where w1: "showNewStream g w x = Some w1" "same_data w1 w" "ticks w1 = ticks w"
    by blast
  from Cons.IH [of w1] Cons.prems
  obtain w2 where w2: "showNewStreams g w1 xs = Some w2" "same_data w2 w1" "ticks w2 = ticks w1"
    by auto
  from w1 w2 show ?case
    by (auto intro: same_data_trans)
qed

lemma tail_pass_error:
  "fst (ListStreams cfg t r rs) = Inl err \<Longrightarrow>
   tail_pass cfg g (t, w) (r, rs, fs) = (Failed err, t, w)"
  by simp

lemma tail_pass_streams:
  assumes "fst (ListStreams cfg t r rs) = Inr strs"
  shows "\<exists>w1. showNewStreams g w strs = Some w1 \<and> same_data w1 w \<and> ticks w1 = ticks w \<and>
           tail_pass cfg g (t, w) (r, rs, fs) =
             (if strs = [] then (Waiting, t, w1)
              else if 100 < length strs then (Failed LogStreamsExceed100, t, w1)
              else (pass_status cfg
                      (fst (fetch_pages g
                         (t, w1\<lparr>fetches := fetches w1 @ [fetch_input cfg g (map Name strs) t]\<rparr>) fs)),
                    snd (fetch_pages g
                         (t, w1\<lparr>fetches := fetches w1 @ [fetch_input cfg g (map Name strs) t]\<rparr>) fs)))"
proof -
  from ListStreams_timestamps [OF assms]
  have "\<forall>x \<in> set strs. LastEventTimestamp x \<noteq> None" by blast
  from showNewStreams_effect [OF this, of g w]
  obtain w1 where w1: "showNewStreams g w strs = Some w1" "same_data w1 w" "ticks w1 = ticks w"
    by blast
  have "tail_pass cfg g (t, w) (r, rs, fs) =
             (if strs = [] then (Waiting, t, w1)
              else if 100 < length strs then (Failed LogStreamsExceed100, t, w1)
              else (pass_status cfg
                      (fst (fetch_pages g
                         (t, w1\<lparr>fetches := fetches w1 @ [fetch_input cfg g (map Name strs) t]\<rparr>) fs)),
                    snd (fetch_pages g
                         (t, w1\<lparr>fetches := fetches w1 @ [fetch_input cfg g (map Name strs) t]\<rparr>) fs)))"
    using assms w1(1)
    by (auto simp: Let_def pass_status_def split: prod.splits fetch_status.splits)
  with w1 show ?thesis by blast
qed

lemma foldl_smax_ge: "t \<le>s foldl smax t xs"
proof -
  have "sint t \<le> Max (insert (sint t) (sint ` set xs))" by simp
  then show ?thesis by (simp add: word_sle_eq foldl_smax_sint)
qed

lemma fetch_pages_watermark_ge: "t \<le>s fst (snd (fetch_pages g (t, w) fs))"
  using fetch_pages_effect [of g t w fs] by (simp add: foldl_smax_ge)

lemma tail_pass_watermark_ge: "t \<le>s fst (snd (tail_pass cfg g (t, w) x))"
proof -
  obtain r rs fs where x: "x = (r, rs, fs)" by (cases x) auto
  show ?thesis
  proof (cases "fst (ListStreams cfg t r rs)")
    case (Inl err)
    then show ?thesis by (simp add: x)
  next
    case (Inr strs)
    from tail_pass_streams [OF this, of g w fs] show ?thesis
      by (auto simp: x fetch_pages_watermark_ge simp del: tail_pass.simps)
  qed
qed

lemma tail_loop_Start:
  "tail_loop cfg g s (Start x # cs) =
     (if fst (tail_pass cfg g (fst s, (snd s)\<lparr>ticks := Suc (ticks (snd s))\<rparr>) x) = Waiting
      then tail_loop cfg g (snd (tail_pass cfg g (fst s, (snd s)\<lparr>ticks := Suc (ticks (snd s))\<rparr>) x)) cs
      else tail_pass cfg g (fst s, (snd s)\<lparr>ticks := Suc (ticks (snd s))\<rparr>) x)"
proof -
  obtain st s' where p: "tail_pass cfg g (fst s, (snd s)\<lparr>ticks := Suc (ticks (snd s))\<rparr>) x = (st, s')"
    by (cases "tail_pass cfg g (fst s, (snd s)\<lparr>ticks := Suc (ticks (snd s))\<rparr>) x") auto
  show ?thesis
    by (cases st) (simp_all add: p del: tail_pass.simps)
qed

lemma tail_loop_watermark_ge: "fst s \<le>s fst (snd (tail_loop cfg g s cs))"
proof (induction cs arbitrary: s)
  case Nil
  show ?case by simp
next
  case (Cons c cs)
  show ?case
  proof (cases c)
    case CtxDone
    then show ?thesis by simp
  next
    case (Start x)
    let ?p = "tail_pass cfg g (fst s, (snd s)\<lparr>ticks := Suc (ticks (snd s))\<rparr>) x"
    have ge: "fst s \<le>s fst (snd ?p)" by (rule tail_pass_watermark_ge)
    show ?thesis
    proof (cases "fst ?p = Waiting")
      case True
      then have "tail_loop cfg g s (c # cs) = tail_loop cfg g (snd ?p) cs"
        by (simp add: Start tail_loop_Start del: tail_loop.simps)
      moreover have "fst (snd ?p) \<le>s fst (snd (tail_loop cfg g (snd ?p) cs))"
        by (rule Cons.IH)
      ultimately show ?thesis
        using ge by (simp only: signed.order_trans)
    next
      case False
      then have "tail_loop cfg g s (c # cs) = ?p"
        by (simp add: Start tail_loop_Start del: tail_loop.simps)
      with ge show ?thesis by (simp only:)
    qed
  qed
qed

lemma tail_loop_append:
  "tail_loop cfg g s (cs @ cs') =
     (if fst (tail_loop cfg g s cs) = Waiting then tail_loop cfg g (snd (tail_loop cfg g s cs)) cs'
      else tail_loop cfg g s cs)"
proof (induction cs arbitrary: s)
  case Nil
  show ?case by simp
next
  case (Cons c cs)
  show ?case
  proof (cases c)
    case CtxDone
    then show ?thesis by simp
  next
    case (Start x)
    let ?p = "tail_pass cfg g (fst s, (snd s)\<lparr>ticks := Suc (ticks (snd s))\<rparr>) x"
    show ?thesis
    proof (cases "fst ?p = Waiting")
      case True
      then have "\<And>zs. tail_loop cfg g s (c # zs) = tail_loop cfg g (snd ?p) zs"
        by (simp add: Start tail_loop_Start del: tail_loop.simps)
      then show ?thesis using Cons.IH [of "snd ?p"] by (simp only: append_Cons)
    next
      case False
      then have "\<And>zs. tail_loop cfg g s (c # zs) = ?p"
        by (simp add: Start tail_loop_Start del: tail_loop.simps)
      then show ?thesis using False by (simp only: append_Cons if_False)
    qed
  qed
qed

text \<open>
  C1: in a fetch pass of \<open>tail\<close>, an event whose id the cache already holds is
  discarded and the state is unchanged; any other event is stored and sent on the channel.
  Over the whole pass, whatever the pages and whatever timestamps the events carry: an id for
  which \<open>Load\<close> is true at the start of the pass (it is within the retention window) is
  sent no more; every other id that the pass observes is sent exactly once, with the event
  of its first occurrence.
\<close>

theorem fetch_dedup_exactly_once:
  "(\<exists>pushed.
      ch (snd (snd (fetch_pages g (t, w) fs))) = ch w @ pushed \<and>
      (\<forall>e. filter (\<lambda>le. EventId (event le) = e) pushed =
         (if Cache_Load (cache w) g e then []
          else case find (\<lambda>ev. EventId ev = e) (observed fs) of
                 None \<Rightarrow> []
               | Some ev \<Rightarrow> [\<lparr>logGroupName = g, event = ev\<rparr>]))) \<and>
   (Cache_Load (cache w) g (EventId ev) \<longrightarrow> process_event g (t, w) ev = (t, w)) \<and>
   (\<not> Cache_Load (cache w) g (EventId ev) \<longrightarrow>
      ch (snd (process_event g (t, w) ev)) = ch w @ [\<lparr>logGroupName = g, event = ev\<rparr>] \<and>
      Cache_Load (cache (snd (process_event g (t, w) ev))) g (EventId ev))"
proof -
  let ?new = "new_events (cached (cache w) g) (observed fs)"
  have "ch (snd (snd (fetch_pages g (t, w) fs))) = ch w @ map (to_logEvent g) ?new"
    using fetch_pages_effect [of g t w fs] by simp
  moreover have "filter (\<lambda>le. EventId (event le) = e) (map (to_logEvent g) ?new) =
        (if Cache_Load (cache w) g e then []
         else case find (\<lambda>ev. EventId ev = e) (observed fs) of
                None \<Rightarrow> []
              | Some ev \<Rightarrow> [\<lparr>logGroupName = g, event = ev\<rparr>])" for e
  proof -
    have "filter (\<lambda>le. EventId (event le) = e) (map (to_logEvent g) ?new) =
          map (to_logEvent g) (filter (\<lambda>ev. EventId ev = e) ?new)"
      by (simp add: filter_map comp_def to_logEvent_def)
    then show ?thesis
      by (simp add: new_events_filter cached_iff to_logEvent_def split: option.splits)
  qed
  ultimately have pass: "\<exists>pushed.
      ch (snd (snd (fetch_pages g (t, w) fs))) = ch w @ pushed \<and>
      (\<forall>e. filter (\<lambda>le. EventId (event le) = e) pushed =
         (if Cache_Load (cache w) g e then []
          else case find (\<lambda>ev. EventId ev = e) (observed fs) of
                 None \<Rightarrow> []
               | Some ev \<Rightarrow> [\<lparr>logGroupName = g, event = ev\<rparr>]))"
    by blast
  have one: "(Cache_Load (cache w) g (EventId ev) \<longrightarrow> process_event g (t, w) ev = (t, w)) \<and>
   (\<not> Cache_Load (cache w) g (EventId ev) \<longrightarrow>
      ch (snd (process_event g (t, w) ev)) = ch w @ [\<lparr>logGroupName = g, event = ev\<rparr>] \<and>
      Cache_Load (cache (snd (process_event g (t, w) ev))) g (EventId ev))"
    by (simp add: Let_def Cache_Load_def Cache_Store_def)
  from pass one show ?thesis by (rule conjI)
qed

lemmas tail_example_defs =
  word_sless_alt word_sle_eq world0_def log_event_def cfg_end_def process_events_def Cache_Load_def Cache_Store_def
  Cache_Expire_def fetch_input_def showNewStream_def formatUnixTime_def tail_def

theorem fetch_dedup_exactly_once_witness:
  "map (\<lambda>le. (EventId (event le), Timestamp (event le)))
     (ch (snd (snd (fetch_pages ''g1'' (50, world0)
        [Inr [log_event ''e1'' 100, log_event ''e1'' 100, log_event ''e2'' 150] ])))) =
   [(''e1'', 100), (''e2'', 150)]"
  using fetch_dedup_exactly_once [of "''g1''" 50 world0
      "[Inr [log_event ''e1'' 100, log_event ''e1'' 100, log_event ''e2'' 150] ]"]
  by (simp add: tail_example_defs Let_def)

text \<open>
  C2, as amended: \<open>lastEventTime\<close> starts at the configured start time; after a fetch
  pass it is at least what it was, and it is the maximum of what it was and the timestamps of
  the events that the pass sent on the channel (those the cache did not discard); it does
  not decrease over further cycles.
\<close>

theorem watermark_after_pass:
  "fst (snd (tail cfg g w [])) = StartTime cfg * 1000 \<and>
   t \<le>s fst (snd (fetch_pages g (t, w) fs)) \<and>
   sint (fst (snd (fetch_pages g (t, w) fs))) =
     Max (insert (sint t)
           (sint ` Timestamp ` event `
              set (drop (length (ch w)) (ch (snd (snd (fetch_pages g (t, w) fs))))))) \<and>
   t \<le>s fst (snd (tail_pass cfg g (t, w) x)) \<and>
   fst (snd (tail cfg g w cs)) \<le>s fst (snd (tail cfg g w (cs @ cs')))"
proof -
  let ?new = "new_events (cached (cache w) g) (observed fs)"
  have eff: "ch (snd (snd (fetch_pages g (t, w) fs))) = ch w @ map (to_logEvent g) ?new"
    "fst (snd (fetch_pages g (t, w) fs)) = foldl smax t (map Timestamp ?new)"
    using fetch_pages_effect [of g t w fs] by simp_all
  have "Timestamp ` event ` set (map (to_logEvent g) ?new) = set (map Timestamp ?new)"
    by (simp add: image_image to_logEvent_def)
  then have a: "sint (fst (snd (fetch_pages g (t, w) fs))) =
     Max (insert (sint t)
           (sint ` Timestamp ` event `
              set (drop (length (ch w)) (ch (snd (snd (fetch_pages g (t, w) fs)))))))"
    by (simp add: eff foldl_smax_sint)
  have b: "fst (snd (tail cfg g w cs)) \<le>s fst (snd (tail cfg g w (cs @ cs')))"
  proof (cases "fst (tail_loop cfg g (StartTime cfg * 1000, w) cs) = Waiting")
    case True
    then have "tail_loop cfg g (StartTime cfg * 1000, w) (cs @ cs') =
               tail_loop cfg g (snd (tail_loop cfg g (StartTime cfg * 1000, w) cs)) cs'"
      by (simp only: tail_loop_append if_True simp_thms)
    then show ?thesis
      using tail_loop_watermark_ge [of "snd (tail_loop cfg g (StartTime cfg * 1000, w) cs)" cfg g cs']
      by (simp only: tail_def)
  next
    case False
    then have "tail_loop cfg g (StartTime cfg * 1000, w) (cs @ cs') =
               tail_loop cfg g (StartTime cfg * 1000, w) cs"
      by (simp only: tail_loop_append if_False simp_thms)
    then show ?thesis by (simp only: tail_def signed.order_refl)
  qed
  show ?thesis
    using a b fetch_pages_watermark_ge [of t g w fs] tail_pass_watermark_ge [of t cfg g w x]
    by (simp add: tail_def del: tail_pass.simps)
qed

theorem watermark_after_pass_witness:
  "fst (snd (tail cfg_recency ''g1'' world0
      [Start (Inr [nonempty_stream ''s1'' 60], [], [Inr [log_event ''e1'' 100, log_event ''e2'' 150] ])])) =
   150"
  using watermark_after_pass [of cfg_recency "''g1''" world0 0
      "[Inr [log_event ''e1'' 100, log_event ''e2'' 150] ]"
      "(Inr [nonempty_stream ''s1'' 60], [], [Inr [log_event ''e1'' 100, log_event ''e2'' 150] ])"
      "[Start (Inr [nonempty_stream ''s1'' 60], [], [Inr [log_event ''e1'' 100, log_event ''e2'' 150] ])]"
      "[]"]
  by (simp add: tail_example_defs example_defs smax_def)

text \<open>
  C2, counterexample: from the start time 0, a completed pass observes the id \<open>e1\<close> twice,
  at the timestamps 100 and 150; the second event is discarded by the cache before the
  comparison with \<open>lastEventTime\<close>, which ends at 100 and not at the maximum observed, 150.
\<close>

theorem watermark_ignores_discarded_event:
  "fst (tail cfg_recency ''g1'' world0
      [Start (Inr [nonempty_stream ''s1'' 60], [], [Inr [log_event ''e1'' 100, log_event ''e1'' 150] ])]) =
   Waiting \<and>
   fst (snd (tail cfg_recency ''g1'' world0
      [Start (Inr [nonempty_stream ''s1'' 60], [], [Inr [log_event ''e1'' 100, log_event ''e1'' 150] ])])) =
   100 \<and>
   map Timestamp (observed [Inr [log_event ''e1'' 100, log_event ''e1'' 150] ]) = [100, 150]"
  by (simp add: tail_example_defs example_defs)

lemma tail_pass_Done:
  assumes "fst (tail_pass cfg g (t, w) (r, rs, fs)) = Done"
  shows "EndTime cfg \<noteq> None \<and> fetch_completes fs"
proof (cases "fst (ListStreams cfg t r rs)")
  case (Inl err)
  with assms show ?thesis by simp
next
  case (Inr strs)
  from tail_pass_streams [OF this, of g w fs] obtain w1 where
    p: "tail_pass cfg g (t, w) (r, rs, fs) =
          (if strs = [] then (Waiting, t, w1)
           else if 100 < length strs then (Failed LogStreamsExceed100, t, w1)
           else (pass_status cfg
                   (fst (fetch_pages g
                      (t, w1\<lparr>fetches := fetches w1 @ [fetch_input cfg g (map Name strs) t]\<rparr>) fs)),
                 snd (fetch_pages g
                      (t, w1\<lparr>fetches := fetches w1 @ [fetch_input cfg g (map Name strs) t]\<rparr>) fs)))"
    by blast
  let ?w2 = "w1\<lparr>fetches := fetches w1 @ [fetch_input cfg g (map Name strs) t]\<rparr>"
  from assms p have d: "pass_status cfg (fst (fetch_pages g (t, ?w2) fs)) = Done"
    by (auto simp del: tail_pass.simps split: if_splits)
  then have "fst (fetch_pages g (t, ?w2) fs) = FetchCompleted \<and> EndTime cfg \<noteq> None"
    by (cases "fst (fetch_pages g (t, ?w2) fs)") (auto simp: pass_status_def split: if_splits)
  then show ?thesis by (simp add: fetch_pages_status)
qed

lemma tail_loop_Done:
  "fst (tail_loop cfg g s cs) = Done \<Longrightarrow> EndTime cfg \<noteq> None"
proof (induction cs arbitrary: s)
  case Nil
  then show ?case by simp
next
  case (Cons c cs)
  show ?case
  proof (cases c)
    case CtxDone
    with Cons.prems show ?thesis by simp
  next
    case (Start x)
    obtain r rs fs where x: "x = (r, rs, fs)" by (cases x) auto
    let ?p = "tail_pass cfg g (fst s, (snd s)\<lparr>ticks := Suc (ticks (snd s))\<rparr>) x"
    show ?thesis
    proof (cases "fst ?p = Waiting")
      case True
      then have "tail_loop cfg g s (c # cs) = tail_loop cfg g (snd ?p) cs"
        by (simp add: Start tail_loop_Start del: tail_loop.simps)
      with Cons.prems have "fst (tail_loop cfg g (snd ?p) cs) = Done" by (simp only:)
      then show ?thesis by (rule Cons.IH)
    next
      case False
      then have "tail_loop cfg g s (c # cs) = ?p"
        by (simp add: Start tail_loop_Start del: tail_loop.simps)
      with Cons.prems have "fst ?p = Done" by (simp only:)
      then have "fst (tail_pass cfg g (fst s, (snd s)\<lparr>ticks := Suc (ticks (snd s))\<rparr>) (r, rs, fs)) = Done"
        by (simp only: x)
      from tail_pass_Done [OF this] show ?thesis by blast
    qed
  qed
qed

lemma tail_pass_completed:
  assumes "fst (ListStreams cfg t r rs) = Inr strs" and "strs \<noteq> []" and "length strs \<le> 100"
    and "fetch_completes fs"
  shows "fst (tail_pass cfg g (t, w) (r, rs, fs)) = (if EndTime cfg \<noteq> None then Done else Waiting)"
proof -
  from tail_pass_streams [OF assms(1), of g w fs] obtain w1 where
    p: "tail_pass cfg g (t, w) (r, rs, fs) =
          (if strs = [] then (Waiting, t, w1)
           else if 100 < length strs then (Failed LogStreamsExceed100, t, w1)
           else (pass_status cfg
                   (fst (fetch_pages g
                      (t, w1\<lparr>fetches := fetches w1 @ [fetch_input cfg g (map Name strs) t]\<rparr>) fs)),
                 snd (fetch_pages g
                      (t, w1\<lparr>fetches := fetches w1 @ [fetch_input cfg g (map Name strs) t]\<rparr>) fs)))"
    by blast
  let ?w2 = "w1\<lparr>fetches := fetches w1 @ [fetch_input cfg g (map Name strs) t]\<rparr>"
  from assms(4) have "fst (fetch_pages g (t, ?w2) fs) = FetchCompleted"
    by (simp add: fetch_pages_status)
  with p assms(2,3) show ?thesis
    by (simp add: pass_status_def del: tail_pass.simps)
qed

text \<open>
  C8, as amended: \<open>tail\<close> returns through its last \<open>return nil\<close> only when an end time
  is configured, and then after a completed fetch pass, whatever the end time is: the code
  does not compare anything with it. Without an end time a completed fetch pass leaves the
  tailer waiting for the next value of \<open>start\<close>, from the state the pass left.
\<close>

theorem tail_done_only_with_end_time:
  "(fst (tail cfg g w cs) = Done \<longrightarrow> EndTime cfg \<noteq> None) \<and>
   (fst (tail_pass cfg g (t, w) (r, rs, fs)) = Done \<longrightarrow>
      EndTime cfg \<noteq> None \<and> fetch_completes fs) \<and>
   (fst (ListStreams cfg t r rs) = Inr strs \<and> strs \<noteq> [] \<and> length strs \<le> 100 \<and>
    fetch_completes fs \<longrightarrow>
      fst (tail_pass cfg g (t, w) (r, rs, fs)) = (if EndTime cfg \<noteq> None then Done else Waiting)) \<and>
   (fst (tail_pass cfg g (t, w\<lparr>ticks := Suc (ticks w)\<rparr>) (r, rs, fs)) = Waiting \<longrightarrow>
      tail_loop cfg g (t, w) (Start (r, rs, fs) # cs') =
        tail_loop cfg g (snd (tail_pass cfg g (t, w\<lparr>ticks := Suc (ticks w)\<rparr>) (r, rs, fs))) cs')"
proof -
  have a: "fst (tail cfg g w cs) = Done \<longrightarrow> EndTime cfg \<noteq> None"
    using tail_loop_Done [of cfg g "(StartTime cfg * 1000, w)" cs] by (simp only: tail_def) blast
  have b: "fst (tail_pass cfg g (t, w) (r, rs, fs)) = Done \<longrightarrow>
      EndTime cfg \<noteq> None \<and> fetch_completes fs"
    using tail_pass_Done [of cfg g t w r rs fs] by blast
  have c: "fst (ListStreams cfg t r rs) = Inr strs \<and> strs \<noteq> [] \<and> length strs \<le> 100 \<and>
    fetch_completes fs \<longrightarrow>
      fst (tail_pass cfg g (t, w) (r, rs, fs)) = (if EndTime cfg \<noteq> None then Done else Waiting)"
    using tail_pass_completed [of cfg t r rs strs fs g w] by blast
  have d: "fst (tail_pass cfg g (t, w\<lparr>ticks := Suc (ticks w)\<rparr>) (r, rs, fs)) = Waiting \<longrightarrow>
      tail_loop cfg g (t, w) (Start (r, rs, fs) # cs') =
        tail_loop cfg g (snd (tail_pass cfg g (t, w\<lparr>ticks := Suc (ticks w)\<rparr>) (r, rs, fs))) cs'"
    using tail_loop_Start [of cfg g "(t, w)" "(r, rs, fs)" cs']
    by (simp del: tail_loop.simps tail_pass.simps)
  from a b c d show ?thesis by (simp only: simp_thms)
qed

text \<open>
  C8, counterexample: with an end time of 200 seconds (200000 ms), the tailer is done after its
  first completed pass, with \<open>lastEventTime\<close> at 100 ms: the end time is set but not reached.
\<close>

theorem tail_done_before_end_time:
  "fst (tail cfg_end ''g1'' world0
      [Start (Inr [nonempty_stream ''s1'' 60], [], [Inr [log_event ''e1'' 100] ])]) = Done \<and>
   fst (snd (tail cfg_end ''g1'' world0
      [Start (Inr [nonempty_stream ''s1'' 60], [], [Inr [log_event ''e1'' 100] ])])) = 100 \<and>
   map in_EndTime (fetches (snd (snd (tail cfg_end ''g1'' world0
      [Start (Inr [nonempty_stream ''s1'' 60], [], [Inr [log_event ''e1'' 100] ])])))) =
     [Some 200000] \<and>
   (100 :: int64) <s 200000"
  by (simp add: tail_example_defs example_defs)

theorem tail_done_only_with_end_time_witness:
  "fst (tail cfg_recency ''g1'' world0
      [Start (Inr [nonempty_stream ''s1'' 60], [], [Inr [log_event ''e1'' 100] ])]) \<noteq> Done \<and>
   fst (tail_pass cfg_end ''g1'' (0, world0)
      (Inr [nonempty_stream ''s1'' 60], [], [Inr [log_event ''e1'' 100] ])) = Done"
  using tail_done_only_with_end_time [of cfg_recency "''g1''" world0
      "[Start (Inr [nonempty_stream ''s1'' 60], [], [Inr [log_event ''e1'' 100] ])]"
      0 "Inr [nonempty_stream ''s1'' 60]" "[]" "[Inr [log_event ''e1'' 100] ]"
      "[to_LogStream (nonempty_stream ''s1'' 60)]" "[]"]
    tail_done_only_with_end_time [of cfg_end "''g1''" world0 "[]"
      0 "Inr [nonempty_stream ''s1'' 60]" "[]" "[Inr [log_event ''e1'' 100] ]"
      "[to_LogStream (nonempty_stream ''s1'' 60)]" "[]"]
  by (simp add: tail_example_defs example_defs fetch_completes_def del: tail_pass.simps tail_loop.simps)

text \<open>
  C9: when \<open>ListStreams\<close> yields more than 100 streams, the cycle fails with the
  cap error, \<open>tail\<close> returns it whatever cycles would follow, and nothing is fetched: no
  request is built, no event is sent, the cache and \<open>lastEventTime\<close> are unchanged. With at
  least one and at most 100 streams the fetch request for these stream names, from
  \<open>lastEventTime\<close>, is built and run: its new events are sent on the channel.
\<close>

theorem tail_stream_cap:
  assumes "fst (ListStreams cfg t r rs) = Inr strs"
  shows "(100 < length strs \<longrightarrow>
            fst (tail_pass cfg g (t, w) (r, rs, fs)) = Failed LogStreamsExceed100 \<and>
            fst (snd (tail_pass cfg g (t, w) (r, rs, fs))) = t \<and>
            fetches (snd (snd (tail_pass cfg g (t, w) (r, rs, fs)))) = fetches w \<and>
            ch (snd (snd (tail_pass cfg g (t, w) (r, rs, fs)))) = ch w \<and>
            cache (snd (snd (tail_pass cfg g (t, w) (r, rs, fs)))) = cache w \<and>
            tail_loop cfg g (t, w) (Start (r, rs, fs) # cs) =
              tail_pass cfg g (t, w\<lparr>ticks := Suc (ticks w)\<rparr>) (r, rs, fs)) \<and>
         (0 < length strs \<and> length strs \<le> 100 \<longrightarrow>
            fetches (snd (snd (tail_pass cfg g (t, w) (r, rs, fs)))) =
              fetches w @ [fetch_input cfg g (map Name strs) t] \<and>
            ch (snd (snd (tail_pass cfg g (t, w) (r, rs, fs)))) =
              ch w @ map (to_logEvent g) (new_events (cached (cache w) g) (observed fs)))"
proof -
  have p: "\<exists>w1. same_data w1 w \<and>
          tail_pass cfg g (t, w) (r, rs, fs) =
          (if strs = [] then (Waiting, t, w1)
           else if 100 < length strs then (Failed LogStreamsExceed100, t, w1)
           else (pass_status cfg
                   (fst (fetch_pages g
                      (t, w1\<lparr>fetches := fetches w1 @ [fetch_input cfg g (map Name strs) t]\<rparr>) fs)),
                 snd (fetch_pages g
                      (t, w1\<lparr>fetches := fetches w1 @ [fetch_input cfg g (map Name strs) t]\<rparr>) fs)))"
    for w
    using tail_pass_streams [OF assms, of g w fs] by blast
  have big: ?thesis if "100 < length strs"
  proof -
    from that have ne: "strs \<noteq> []" by auto
    from p [of w] that ne obtain w1 where w1: "same_data w1 w"
      "tail_pass cfg g (t, w) (r, rs, fs) = (Failed LogStreamsExceed100, t, w1)"
      by (auto simp del: tail_pass.simps)
    from p [of "w\<lparr>ticks := Suc (ticks w)\<rparr>"] that ne obtain w1' where
      "tail_pass cfg g (t, w\<lparr>ticks := Suc (ticks w)\<rparr>) (r, rs, fs) =
         (Failed LogStreamsExceed100, t, w1')"
      by (auto simp del: tail_pass.simps)
    then have "tail_loop cfg g (t, w) (Start (r, rs, fs) # cs) =
               tail_pass cfg g (t, w\<lparr>ticks := Suc (ticks w)\<rparr>) (r, rs, fs)"
      by (simp add: tail_loop_Start del: tail_loop.simps tail_pass.simps)
    with w1 that show ?thesis
      by (simp add: same_data_def del: tail_loop.simps tail_pass.simps)
  qed
  have small: ?thesis if "0 < length strs \<and> length strs \<le> 100"
  proof -
    from that have ne: "strs \<noteq> []" "\<not> 100 < length strs" by auto
    from p [of w] ne obtain w1 where w1: "same_data w1 w"
      "tail_pass cfg g (t, w) (r, rs, fs) =
         (pass_status cfg
            (fst (fetch_pages g
               (t, w1\<lparr>fetches := fetches w1 @ [fetch_input cfg g (map Name strs) t]\<rparr>) fs)),
          snd (fetch_pages g
               (t, w1\<lparr>fetches := fetches w1 @ [fetch_input cfg g (map Name strs) t]\<rparr>) fs))"
      by (auto simp del: tail_pass.simps)
    let ?w2 = "w1\<lparr>fetches := fetches w1 @ [fetch_input cfg g (map Name strs) t]\<rparr>"
    from fetch_pages_effect [of g t ?w2 fs] w1 that show ?thesis
      by (simp add: same_data_def del: tail_pass.simps)
  qed
  show ?thesis
  proof (cases "100 < length strs")
    case True
    then show ?thesis by (rule big)
  next
    case False
    show ?thesis
    proof (cases "0 < length strs")
      case True
      with False show ?thesis by (intro small) simp
    next
      case False
      then show ?thesis by simp
    qed
  qed
qed

lemma many_streams_collected:
  "collected cfg_recency 0 (many_streams n) = map to_LogStream (many_streams n)"
proof -
  have "\<forall>s \<in> set (many_streams n). matching cfg_recency 0 s"
    by (auto simp: many_streams_def matching_def nonempty_stream_def cfg_recency_def
          is_empty_stream_def word_sle_eq)
  then show ?thesis by (simp add: collected_def)
qed

lemma ListStreams_single_page:
  "LogStreamNamePrefix cfg = [] \<Longrightarrow>
   ListStreams cfg since (Inr page) [] = (Inr (collected cfg since page), [])"
  using paginate_recency_last [of cfg since "[]" page]
  by (simp add: ListStreams_def examine_page_def)

theorem tail_stream_cap_witness:
  "fst (tail_pass cfg_recency ''g1'' (0, world0)
          (Inr (many_streams 101), [], [Inr [log_event ''e1'' 100] ])) =
     Failed LogStreamsExceed100 \<and>
   fetches (snd (snd (tail_pass cfg_recency ''g1'' (0, world0)
          (Inr (many_streams 101), [], [Inr [log_event ''e1'' 100] ])))) = [] \<and>
   map in_LogStreamNames (fetches (snd (snd (tail_pass cfg_recency ''g1'' (0, world0)
          (Inr (many_streams 100), [], [Inr [log_event ''e1'' 100] ]))))) =
     [map LogStreamName (many_streams 100)]"
proof -
  have l: "fst (ListStreams cfg_recency 0 (Inr (many_streams n)) []) =
           Inr (map to_LogStream (many_streams n))" for n
    by (simp add: ListStreams_single_page cfg_recency_def many_streams_collected [unfolded cfg_recency_def])
  have len: "length (many_streams n) = n" for n
    by (simp add: many_streams_def)
  from tail_stream_cap [OF l [of 101], of "''g1''" world0 "[Inr [log_event ''e1'' 100] ]" "[]"]
    tail_stream_cap [OF l [of 100], of "''g1''" world0 "[Inr [log_event ''e1'' 100] ]" "[]"]
  show ?thesis
    by (simp add: len world0_def fetch_input_def to_LogStream_def
          del: tail_pass.simps tail_loop.simps)
qed

text \<open>
  C10: every \<open>LogStream\<close> that \<open>ListStreams\<close> returns comes from a backend stream
  of the listing and carries that stream's \<open>LastIngestionTime\<close> in its field
  \<open>LastEventTimestamp\<close>; the announcement of a new stream shows this time.
\<close>

theorem ListStreams_timestamp_is_ingestion_time:
  assumes "fst (ListStreams cfg since r rest) = Inr xs" and "x \<in> set xs"
  shows "\<exists>s \<in> set (listed (r # rest)). \<exists>lit.
           sdk_LastIngestionTime s = Some lit \<and> Name x = LogStreamName s \<and>
           LastEventTimestamp x = Some lit \<and>
           (g @ ''+++'' @ Name x \<notin> seenStream w \<longrightarrow>
              (\<exists>w'. showNewStream g w x = Some w' \<and>
                    stderr w' = stderr w @ [NewStream g (Name x) (formatUnixTime lit)]))"
proof -
  from ListStreams_subset [OF assms(1)] assms(2)
  obtain s where s: "s \<in> set (listed (r # rest))" "matching cfg since s" "x = to_LogStream s"
    by auto
  from s(2) obtain lit where lit: "sdk_LastIngestionTime s = Some lit"
    by (auto simp: matching_def split: option.splits)
  have "Name x = LogStreamName s" "LastEventTimestamp x = Some lit"
    by (simp_all add: s(3) to_LogStream_def lit)
  moreover from this have "g @ ''+++'' @ Name x \<notin> seenStream w \<longrightarrow>
              (\<exists>w'. showNewStream g w x = Some w' \<and>
                    stderr w' = stderr w @ [NewStream g (Name x) (formatUnixTime lit)])"
    by (simp add: showNewStream_def Let_def)
  ultimately show ?thesis using s(1) lit by blast
qed

theorem ListStreams_timestamp_is_ingestion_time_witness:
  "\<exists>s \<in> set (listed [Inr [nonempty_stream ''s1'' 60\<lparr>sdk_LastEventTimestamp := Some 40\<rparr>] ]). \<exists>lit.
     sdk_LastIngestionTime s = Some lit \<and>
     Name (to_LogStream (nonempty_stream ''s1'' 60\<lparr>sdk_LastEventTimestamp := Some 40\<rparr>)) = LogStreamName s \<and>
     LastEventTimestamp (to_LogStream (nonempty_stream ''s1'' 60\<lparr>sdk_LastEventTimestamp := Some 40\<rparr>)) = Some lit \<and>
     lit = 60"
proof -
  let ?s = "nonempty_stream ''s1'' 60\<lparr>sdk_LastEventTimestamp := Some 40\<rparr>"
  have a: "fst (ListStreams cfg_recency 0 (Inr [?s]) []) = Inr [to_LogStream ?s]"
    by (simp add: example_defs word_sle_eq word_sless_alt)
  have b: "to_LogStream ?s \<in> set [to_LogStream ?s]" by simp
  from ListStreams_timestamp_is_ingestion_time [OF a b, of "''g1''" world0]
  show ?thesis
    by (auto simp: listed_simps nonempty_stream_def)
qed

section \<open>The initial discovery pass of \<open>Tail\<close>\<close>

lemma process_event_same:
  assumes "same_data w1 w2"
  shows "fst (process_event g (t, w1) ev) = fst (process_event g (t, w2) ev) \<and>
         same_data (snd (process_event g (t, w1) ev)) (snd (process_event g (t, w2) ev))"
  using assms by (simp add: same_data_def Let_def)

lemma process_events_same:
  assumes "same_data w1 w2"
  shows "fst (process_events g (t, w1) evs) = fst (process_events g (t, w2) evs) \<and>
         same_data (snd (process_events g (t, w1) evs)) (snd (process_events g (t, w2) evs))"
  using assms
proof (induction evs arbitrary: t w1 w2)
  case Nil
  then show ?case by (simp add: process_events_Nil)
next
  case (Cons ev evs)
  obtain ta wa where a: "process_event g (t, w1) ev = (ta, wa)"
    by (cases "process_event g (t, w1) ev") auto
  obtain tb wb where b: "process_event g (t, w2) ev = (tb, wb)"
    by (cases "process_event g (t, w2) ev") auto
  from process_event_same [OF Cons.prems, of g t ev]
  have h: "ta = tb" "same_data wa wb"
    by (simp_all add: a b del: process_event.simps)
  from Cons.IH [OF h(2), of ta] h(1) show ?case
    by (simp add: process_events_Cons a b del: process_event.simps)
qed

lemma fetch_pages_same:
  assumes "same_data w1 w2"
  shows "fst (fetch_pages g (t, w1) fs) = fst (fetch_pages g (t, w2) fs) \<and>
         fst (snd (fetch_pages g (t, w1) fs)) = fst (snd (fetch_pages g (t, w2) fs)) \<and>
         same_data (snd (snd (fetch_pages g (t, w1) fs))) (snd (snd (fetch_pages g (t, w2) fs)))"
  using assms
proof (induction fs arbitrary: t w1 w2)
  case Nil
  then show ?case by simp
next
  case (Cons r fs)
  show ?case
  proof (cases r)
    case (Inl e)
    then show ?thesis using Cons.IH [OF Cons.prems, of t] Cons.prems by (cases e) simp_all
  next
    case (Inr evs)
    let ?a = "process_events g (t, w1) evs" and ?b = "process_events g (t, w2) evs"
    from process_events_same [OF Cons.prems, of g t evs]
    have h: "fst ?a = fst ?b" "same_data (snd ?a) (snd ?b)" by simp_all
    show ?thesis
    proof (cases "fs = []")
      case True
      with h show ?thesis
        by (simp add: Inr fetch_pages_Inr same_data_def del: fetch_pages.simps)
    next
      case False
      with Cons.IH [OF h(2), of "fst ?a"] h(1) show ?thesis
        by (simp add: Inr fetch_pages_Inr del: fetch_pages.simps)
    qed
  qed
qed

lemma tail_pass_same:
  assumes "same_data w1 w2"
  shows "fst (tail_pass cfg g (t, w1) x) = fst (tail_pass cfg g (t, w2) x) \<and>
         fst (snd (tail_pass cfg g (t, w1) x)) = fst (snd (tail_pass cfg g (t, w2) x)) \<and>
         same_data (snd (snd (tail_pass cfg g (t, w1) x))) (snd (snd (tail_pass cfg g (t, w2) x)))"
proof -
  obtain r rs fs where x: "x = (r, rs, fs)" by (cases x) auto
  show ?thesis
  proof (cases "fst (ListStreams cfg t r rs)")
    case (Inl err)
    with assms show ?thesis by (simp add: x)
  next
    case (Inr strs)
    let ?inp = "fetch_input cfg g (map Name strs) t"
    from tail_pass_streams [OF Inr, of g w1 fs] obtain a where
      a: "same_data a w1"
         "tail_pass cfg g (t, w1) (r, rs, fs) =
            (if strs = [] then (Waiting, t, a)
             else if 100 < length strs then (Failed LogStreamsExceed100, t, a)
             else (pass_status cfg (fst (fetch_pages g (t, a\<lparr>fetches := fetches a @ [?inp]\<rparr>) fs)),
                   snd (fetch_pages g (t, a\<lparr>fetches := fetches a @ [?inp]\<rparr>) fs)))"
      by blast
    from tail_pass_streams [OF Inr, of g w2 fs] obtain b where
      b: "same_data b w2"
         "tail_pass cfg g (t, w2) (r, rs, fs) =
            (if strs = [] then (Waiting, t, b)
             else if 100 < length strs then (Failed LogStreamsExceed100, t, b)
             else (pass_status cfg (fst (fetch_pages g (t, b\<lparr>fetches := fetches b @ [?inp]\<rparr>) fs)),
                   snd (fetch_pages g (t, b\<lparr>fetches := fetches b @ [?inp]\<rparr>) fs)))"
      by blast
    from a(1) b(1) assms have ab: "same_data a b"
      by (simp add: same_data_def)
    then have "same_data (a\<lparr>fetches := fetches a @ [?inp]\<rparr>) (b\<lparr>fetches := fetches b @ [?inp]\<rparr>)"
      by (simp add: same_data_def)
    from fetch_pages_same [OF this, of g t fs] ab show ?thesis
      by (simp add: x a(2) b(2) del: tail_pass.simps)
  qed
qed

lemma tail_loop_same:
  assumes "same_data w1 w2"
  shows "fst (tail_loop cfg g (t, w1) cs) = fst (tail_loop cfg g (t, w2) cs) \<and>
         fst (snd (tail_loop cfg g (t, w1) cs)) = fst (snd (tail_loop cfg g (t, w2) cs)) \<and>
         same_data (snd (snd (tail_loop cfg g (t, w1) cs))) (snd (snd (tail_loop cfg g (t, w2) cs)))"
  using assms
proof (induction cs arbitrary: t w1 w2)
  case Nil
  then show ?case by simp
next
  case (Cons c cs)
  show ?case
  proof (cases c)
    case CtxDone
    with Cons.prems show ?thesis by simp
  next
    case (Start x)
    let ?a = "tail_pass cfg g (t, w1\<lparr>ticks := Suc (ticks w1)\<rparr>) x"
    let ?b = "tail_pass cfg g (t, w2\<lparr>ticks := Suc (ticks w2)\<rparr>) x"
    from Cons.prems have "same_data (w1\<lparr>ticks := Suc (ticks w1)\<rparr>) (w2\<lparr>ticks := Suc (ticks w2)\<rparr>)"
      by (simp add: same_data_def)
    from tail_pass_same [OF this, of cfg g t x]
    have h: "fst ?a = fst ?b" "fst (snd ?a) = fst (snd ?b)" "same_data (snd (snd ?a)) (snd (snd ?b))"
      by simp_all
    have la: "tail_loop cfg g (t, w1) (c # cs) =
              (if fst ?a = Waiting then tail_loop cfg g (fst (snd ?a), snd (snd ?a)) cs else ?a)"
      by (simp add: Start tail_loop_Start del: tail_loop.simps tail_pass.simps)
    have lb: "tail_loop cfg g (t, w2) (c # cs) =
              (if fst ?b = Waiting then tail_loop cfg g (fst (snd ?b), snd (snd ?b)) cs else ?b)"
      by (simp add: Start tail_loop_Start del: tail_loop.simps tail_pass.simps)
    show ?thesis
    proof (cases "fst ?a = Waiting")
      case True
      with h(1) have "fst ?b = Waiting" by simp
      with True la lb Cons.IH [OF h(3), of "fst (snd ?a)"] h(2) show ?thesis
        by (simp del: tail_loop.simps tail_pass.simps)
    next
      case False
      with h(1) have "fst ?b \<noteq> Waiting" by simp
      with False la lb h show ?thesis
        by (simp del: tail_loop.simps tail_pass.simps)
    qed
  qed
qed

lemma showNewGroup_same: "same_data (showNewGroup w g) w \<and> ticks (showNewGroup w g) = ticks w"
  by (simp add: showNewGroup_def same_data_def)

lemma initial_check_effect:
  "same_data (snd (initial_check cfg w gs env)) w \<and>
   ticks w \<le> ticks (snd (initial_check cfg w gs env)) \<and>
   (fst (initial_check cfg w gs env) = CheckPassed \<longrightarrow>
      ticks (snd (initial_check cfg w gs env)) = ticks w + length gs)"
proof (induction cfg w gs env rule: initial_check.induct)
  case (1 cfg w env)
  show ?case by (simp add: same_data_refl)
next
  case (2 cfg w g gs)
  show ?case using showNewGroup_same [of w g] by simp
next
  case (3 cfg w g gs env)
  show ?case using showNewGroup_same [of w g] by simp
next
  case (4 cfg w g gs r rs env)
  let ?w1 = "(showNewGroup w g)\<lparr>ticks := Suc (ticks (showNewGroup w g))\<rparr>"
  have w1: "same_data ?w1 w" "ticks ?w1 = Suc (ticks w)"
    using showNewGroup_same [of w g] by (simp_all add: same_data_def)
  show ?case
  proof (cases "fst (ListStreams cfg (StartTime cfg * 1000) r rs)")
    case (Inl err)
    with w1 show ?thesis by (simp add: Let_def)
  next
    case (Inr strs)
    from ListStreams_timestamps [OF Inr]
    have "\<forall>x \<in> set strs. LastEventTimestamp x \<noteq> None" by blast
    from showNewStreams_effect [OF this, of g ?w1]
    obtain w2 where w2: "showNewStreams g ?w1 strs = Some w2" "same_data w2 ?w1" "ticks w2 = ticks ?w1"
      by blast
    have eq: "initial_check cfg w (g # gs) (Start (r, rs) # env) = initial_check cfg w2 gs env"
      using Inr w2(1) by (simp add: Let_def)
    from "4.IH" [OF refl Inr w2(1)]
    have ih: "same_data (snd (initial_check cfg w2 gs env)) w2"
      "ticks w2 \<le> ticks (snd (initial_check cfg w2 gs env))"
      "fst (initial_check cfg w2 gs env) = CheckPassed \<longrightarrow>
         ticks (snd (initial_check cfg w2 gs env)) = ticks w2 + length gs"
      by simp_all
    from ih w2 w1 show ?thesis
      by (simp add: eq same_data_def del: initial_check.simps)
  qed
qed

text \<open>
  C7, as amended: the initial discovery pass of \<open>Tail\<close> receives one value from the shared
  channel \<open>start\<close> for every group it examines (a pass over all the groups consumes as
  many ticks as there are groups), and it touches neither the cache, nor the events sent,
  nor the fetches: a tailer started afterwards begins at the configured start time and
  reaches the same status, the same \<open>lastEventTime\<close>, the same cache and the same sent
  events as it would have without the initial pass.
\<close>

theorem initial_check_frame:
  assumes "initial_check cfg w gs env = (st, w')"
  shows "ticks w \<le> ticks w' \<and>
         (st = CheckPassed \<longrightarrow> ticks w' = ticks w + length gs) \<and>
         cache w' = cache w \<and> ch w' = ch w \<and> fetches w' = fetches w \<and>
         fst (snd (tail cfg g w' [])) = StartTime cfg * 1000 \<and>
         fst (tail cfg g w' cs) = fst (tail cfg g w cs) \<and>
         fst (snd (tail cfg g w' cs)) = fst (snd (tail cfg g w cs)) \<and>
         same_data (snd (snd (tail cfg g w' cs))) (snd (snd (tail cfg g w cs)))"
proof -
  from initial_check_effect [of cfg w gs env] assms
  have e: "same_data w' w" "ticks w \<le> ticks w'"
    "st = CheckPassed \<longrightarrow> ticks w' = ticks w + length gs"
    by simp_all
  from tail_loop_same [OF e(1), of cfg g "StartTime cfg * 1000" cs] e show ?thesis
    by (simp add: tail_def same_data_def)
qed

text \<open>
  C7, counterexample: the initial pass over one group receives a value from \<open>start\<close>:
  the count of received ticks goes from 0 to 1 (and without a tick, on cancellation, the
  pass returns the context's error).
\<close>

theorem initial_check_consumes_tick:
  "ticks world0 = 0 \<and>
   fst (initial_check cfg_recency world0 [''g1''] [Start (Inr [nonempty_stream ''s1'' 60], [])]) =
     CheckPassed \<and>
   ticks (snd (initial_check cfg_recency world0 [''g1'']
                 [Start (Inr [nonempty_stream ''s1'' 60], [])])) = 1 \<and>
   fst (initial_check cfg_recency world0 [''g1''] [CtxDone]) = CheckFailed ContextErr"
  by (simp add: tail_example_defs example_defs showNewGroup_def)

theorem initial_check_frame_witness:
  "stderr (snd (initial_check cfg_recency world0 [''g1'']
                 [Start (Inr [nonempty_stream ''s1'' 60], [])])) =
     [NewGroup ''g1'', NewStream ''g1'' ''s1'' (0, 60000)] \<and>
   ticks (snd (initial_check cfg_recency world0 [''g1'']
                 [Start (Inr [nonempty_stream ''s1'' 60], [])])) = ticks world0 + length [''g1''] \<and>
   ch (snd (initial_check cfg_recency world0 [''g1'']
                 [Start (Inr [nonempty_stream ''s1'' 60], [])])) = ch world0"
proof -
  obtain st w' where h: "initial_check cfg_recency world0 [''g1'']
                 [Start (Inr [nonempty_stream ''s1'' 60], [])] = (st, w')"
    by (cases "initial_check cfg_recency world0 [''g1'']
                 [Start (Inr [nonempty_stream ''s1'' 60], [])]") auto
  have p: "fst (initial_check cfg_recency world0 [''g1'']
                 [Start (Inr [nonempty_stream ''s1'' 60], [])]) = CheckPassed"
    by (simp add: tail_example_defs example_defs showNewGroup_def)
  have s: "stderr (snd (initial_check cfg_recency world0 [''g1'']
                 [Start (Inr [nonempty_stream ''s1'' 60], [])])) =
     [NewGroup ''g1'', NewStream ''g1'' ''s1'' (0, 60000)]"
    by (simp add: tail_example_defs example_defs showNewGroup_def)
  from initial_check_frame [OF h, of "''g1''" "[]"] p s show ?thesis
    by (simp add: h del: initial_check.simps)
qed

end
